theory Spec2Isabelle
  imports
    Main
    "HOL-Library.AList"
    "HOL-Library.Char_ord"
    "HOL-Library.List_Lexorder"
    "HOL-Library.Product_Lexorder"
    "HOL-Library.Sublist"
    "HOL-Library.Multiset"
begin

section \<open>Requests and slot resolution (scrapy/pqueues.py, lines 15-49)\<close>

text \<open>
  The two Python exceptions the module raises itself are both \<^verbatim>\<open>ValueError\<close>s and
  differ in their message: \<open>InvalidRequestKind\<close> is
  \<^verbatim>\<open>ValueError('Bad type of request ...')\<close> of \<^verbatim>\<open>_get_from_request\<close>,
  \<open>MalformedSnapshotKind\<close> is the \<^verbatim>\<open>ValueError\<close> of
  \<^verbatim>\<open>RoundRobinQueue.__init__\<close>. \<open>KeyError\<close> is the exception of a dictionary
  subscript with a missing key. \<open>StorageIOKind\<close> is whatever the \<^verbatim>\<open>push\<close> of an
  internal queue raises when it cannot store an entry (a request that cannot be
  serialised, a write that fails); it passes through \<^verbatim>\<open>push\<close> to the caller.
\<close>

datatype error = InvalidRequestKind | MalformedSnapshotKind | KeyError | StorageIOKind

text \<open>
  A value stored in a request's \<^verbatim>\<open>meta\<close> dictionary. The module only compares
  it with \<^verbatim>\<open>None\<close> and applies \<^verbatim>\<open>str\<close> to it, so an object that is neither
  \<^verbatim>\<open>None\<close> nor a string is represented by the text \<^verbatim>\<open>str\<close> gives for it.
\<close>

datatype pyval = PyNone | PyStr string | PyObj string

fun py_str :: "pyval \<Rightarrow> string" where
  "py_str PyNone = ''None''"
| "py_str (PyStr s) = s"
| "py_str (PyObj s) = s"

text \<open>
  A Python dictionary keeps its keys in insertion order: it is an association list with
  distinct keys, \<open>AList.update\<close> is \<^verbatim>\<open>d[k] = v\<close> (an existing key keeps its place, a
  new key goes last) and \<open>AList.delete\<close> is \<^verbatim>\<open>del d[k]\<close>.
\<close>

type_synonym meta = "(string \<times> pyval) list"

text \<open>
  What \<^verbatim>\<open>push\<close> can be handed: a plain dictionary (with or without the keys
  \<^verbatim>\<open>'meta'\<close> and \<^verbatim>\<open>'url'\<close>), a \<^verbatim>\<open>scrapy.http.Request\<close> object (whose
  \<^verbatim>\<open>meta\<close> attribute always is a dictionary owned by the request and whose
  \<^verbatim>\<open>url\<close> always is a string), or any other value, named by a label.
\<close>

datatype request =
    DictRequest "meta option" "string option"
  | Request meta string
  | OtherValue string

text \<open>
  The collaborators of the module that are not part of it: the host name
  \<^verbatim>\<open>urlparse(url).hostname\<close> of a URL (\<open>None\<close> where Python gives \<^verbatim>\<open>None\<close>; the
  URL itself is \<open>None\<close> where the dictionary has no \<^verbatim>\<open>'url'\<close>), \<^verbatim>\<open>str.isalnum\<close>
  on one character and \<^verbatim>\<open>hashlib.md5(...).hexdigest()\<close>.
\<close>

record env =
  hostname :: "string option \<Rightarrow> string option"
  isalnum :: "char \<Rightarrow> bool"
  md5_hexdigest :: "string \<Rightarrow> string"

text \<open>\<^verbatim>\<open>SCHEDULER_SLOT_META_KEY = Downloader.DOWNLOAD_SLOT\<close>; the downloader names the key
  \<^verbatim>\<open>'download_slot'\<close>.\<close>

definition SCHEDULER_SLOT_META_KEY :: string where
  "SCHEDULER_SLOT_META_KEY = ''download_slot''"

text \<open>\<^verbatim>\<open>_get_from_request(request, 'meta', dict())\<close>.\<close>

fun get_meta_from_request :: "request \<Rightarrow> error + meta" where
  "get_meta_from_request (DictRequest m u) = Inr (case m of None \<Rightarrow> [] | Some d \<Rightarrow> d)"
| "get_meta_from_request (Request m u) = Inr m"
| "get_meta_from_request (OtherValue x) = Inl InvalidRequestKind"

text \<open>\<^verbatim>\<open>_get_from_request(request, 'url')\<close>, with the default \<^verbatim>\<open>None\<close>.\<close>

fun get_url_from_request :: "request \<Rightarrow> error + string option" where
  "get_url_from_request (DictRequest m u) = Inr u"
| "get_url_from_request (Request m u) = Inr (Some u)"
| "get_url_from_request (OtherValue x) = Inl InvalidRequestKind"

text \<open>
  \<^verbatim>\<open>meta[SCHEDULER_SLOT_META_KEY] = slot\<close> changes the dictionary object that
  \<^verbatim>\<open>_get_from_request\<close> returned. That object is the request's own dictionary, except
  for a plain dictionary without the key \<^verbatim>\<open>'meta'\<close>: there it is the default
  \<^verbatim>\<open>dict()\<close>, which nothing else refers to. \<open>assign_meta r m\<close> is the request after
  the dictionary that was read from \<open>r\<close> has become \<open>m\<close>.
\<close>

fun assign_meta :: "request \<Rightarrow> meta \<Rightarrow> request" where
  "assign_meta (DictRequest None u) m = DictRequest None u"
| "assign_meta (DictRequest (Some d) u) m = DictRequest (Some m) u"
| "assign_meta (Request d u) m = Request m u"
| "assign_meta (OtherValue x) m = OtherValue x"

text \<open>\<^verbatim>\<open>meta.get(key, None)\<close>.\<close>

definition meta_get :: "meta \<Rightarrow> string \<Rightarrow> pyval" where
  "meta_get m k = (case map_of m k of None \<Rightarrow> PyNone | Some v \<Rightarrow> v)"

text \<open>
  \<^verbatim>\<open>scheduler_slot(request)\<close>: the result (the slot key or the exception) and the
  request as the call leaves it.
\<close>

definition scheduler_slot :: "env \<Rightarrow> request \<Rightarrow> (error + string) \<times> request" where
  "scheduler_slot e request =
     (case get_meta_from_request request of
        Inl err \<Rightarrow> (Inl err, request)
      | Inr m \<Rightarrow>
          (case meta_get m SCHEDULER_SLOT_META_KEY of
             PyNone \<Rightarrow>
               (case get_url_from_request request of
                  Inl err \<Rightarrow> (Inl err, request)
                | Inr url \<Rightarrow>
                    (let slot = (case hostname e url of None \<Rightarrow> [] | Some h \<Rightarrow> h)
                     in (Inr slot,
                         assign_meta request
                           (AList.update SCHEDULER_SLOT_META_KEY (PyStr slot) m))))
           | v \<Rightarrow> (Inr (py_str v), request)))"

text \<open>\<^verbatim>\<open>_slot_as_path(slot)\<close>.\<close>

definition slot_as_path :: "env \<Rightarrow> string \<Rightarrow> string" where
  "slot_as_path e slot =
     map (\<lambda>c. if isalnum e c \<or> c \<in> set ''-._'' then c else CHR ''_'') slot
       @ ''-'' @ md5_hexdigest e slot"

section \<open>The partition queue (queuelib's PriorityQueue as PriorityAsTupleQueue)\<close>

text \<open>
  The effective priority of an entry is the tuple \<^verbatim>\<open>(priority, _slot_as_path(slot))\<close>;
  Python compares tuples lexicographically and strings by code point.
\<close>

type_synonym prio = "int \<times> string"

text \<open>
  Modelled from the spec: the queues that the factory \<^verbatim>\<open>qfactory\<close> makes. The factory
  is a constructor argument, and the queue classes it would construct come from a library
  outside the repository; section 4.2 of the specification describes the backends as
  interchangeable containers with push, pop, size and close, first-in-first-out or
  last-in-first-out, in memory (lost on exit) or on disk in one file per priority level
  (kept across restarts), and section 7 has a failing write surface to the caller of
  \<^verbatim>\<open>push\<close>. The choices are fixed once per deployment; \<open>storable b r\<close> says that
  the backend can store the request \<open>r\<close> (a disk queue raises on a request that cannot
  be serialised, a memory queue stores everything).
\<close>

record backend =
  lifo :: bool
  durable :: bool
  storable :: "request \<Rightarrow> bool"

text \<open>
  Modelled from the spec: an internal queue is the list of its entries, oldest first. The
  files of the durable backend are a function from the priority that names the file to
  the entries it holds (no entries where there is no file). A queue the factory makes
  starts with the entries of its file; closing a queue leaves its entries in the file,
  and removes the file when there are none. Queues open at the same time are taken to
  have files of their own (the priority tuple carries the slot's path for that purpose).
\<close>

type_synonym files = "prio \<Rightarrow> request list"

definition qfactory :: "backend \<Rightarrow> files \<Rightarrow> prio \<Rightarrow> request list" where
  "qfactory b fs p = (if durable b then fs p else [])"

definition iq_push :: "backend \<Rightarrow> request list \<Rightarrow> request \<Rightarrow> error + request list" where
  "iq_push b q r = (if storable b r then Inr (q @ [r]) else Inl StorageIOKind)"

definition iq_pop :: "backend \<Rightarrow> request list \<Rightarrow> request option \<times> request list" where
  "iq_pop b q =
     (if q = [] then (None, [])
      else if lifo b then (Some (last q), butlast q)
      else (Some (hd q), tl q))"

definition iq_close :: "backend \<Rightarrow> files \<Rightarrow> prio \<Rightarrow> request list \<Rightarrow> files" where
  "iq_close b fs p q = (if durable b then fs(p := q) else fs)"

text \<open>
  The fields \<^verbatim>\<open>queues\<close> (a dictionary from priority to internal queue) and
  \<^verbatim>\<open>curprio\<close> of the priority queue.
\<close>

record pqueue =
  queues :: "(prio \<times> request list) list"
  curprio :: "prio option"

text \<open>\<^verbatim>\<open>min(prios) if prios else None\<close>.\<close>

definition min_or_none :: "prio list \<Rightarrow> prio option" where
  "min_or_none ps = (if ps = [] then None else Some (min_list ps))"

text \<open>
  \<^verbatim>\<open>PriorityAsTupleQueue.__init__(qfactory, startprios)\<close> (lines 54-60): one internal
  queue per start priority, and \<^verbatim>\<open>curprio\<close> the least of them.
\<close>

definition pq_init :: "backend \<Rightarrow> files \<Rightarrow> prio list \<Rightarrow> pqueue" where
  "pq_init b fs startprios =
     \<lparr> queues = fold (\<lambda>p qs. AList.update p (qfactory b fs p) qs) startprios [],
       curprio = min_or_none startprios \<rparr>"

text \<open>
  The methods \<^verbatim>\<open>push\<close>, \<^verbatim>\<open>pop\<close>, \<^verbatim>\<open>close\<close> and \<^verbatim>\<open>__len__\<close> are inherited from
  \<^verbatim>\<open>queuelib.PriorityQueue\<close>, a library outside the repository. They work on the two
  fields the constructor above sets up and keep \<^verbatim>\<open>curprio\<close> the least priority that
  has entries, as the constructor starts it ("lower numbers are higher priorities" in
  the library's words):
  \<^verbatim>\<open>
    def push(self, obj, priority=0):
        if priority not in self.queues:
            self.queues[priority] = self.qfactory(priority)
        q = self.queues[priority]
        q.push(obj) # this may fail (eg. serialization error)
        if self.curprio is None or priority < self.curprio:
            self.curprio = priority

    def pop(self):
        if self.curprio is None:
            return
        q = self.queues[self.curprio]
        m = q.pop()
        if len(q) == 0:
            del self.queues[self.curprio]
            q.close()
            prios = [p for p, q in self.queues.items() if len(q) > 0]
            self.curprio = min(prios) if prios else None
        return m

    def __len__(self):
        return sum(len(x) for x in self.queues.values()) if self.queues else 0

    def close(self):
        active = []
        for p, q in self.queues.items():
            if len(q):
                active.append(p)
            q.close()
        return active
  \<close>
\<close>

text \<open>
  \<^verbatim>\<open>push\<close>: the exception raised, if any, and the priority queue after the call. When
  the internal queue's \<^verbatim>\<open>push\<close> raises, the internal queue made for a new priority
  stays in \<^verbatim>\<open>queues\<close> and \<^verbatim>\<open>curprio\<close> is as it was.
\<close>

definition pq_push ::
  "backend \<Rightarrow> files \<Rightarrow> pqueue \<Rightarrow> request \<Rightarrow> prio \<Rightarrow> error option \<times> pqueue" where
  "pq_push b fs pq obj p =
     (let qs = (if p \<in> fst ` set (queues pq) then queues pq
                else AList.update p (qfactory b fs p) (queues pq));
          q = (case map_of qs p of None \<Rightarrow> [] | Some q \<Rightarrow> q)
      in (case iq_push b q obj of
            Inl err \<Rightarrow> (Some err, pq\<lparr> queues := qs \<rparr>)
          | Inr q' \<Rightarrow>
              (None,
               \<lparr> queues = AList.update p q' qs,
                 curprio = (case curprio pq of
                              None \<Rightarrow> Some p
                            | Some c \<Rightarrow> if p < c then Some p else Some c) \<rparr>)))"

definition pq_pop ::
  "backend \<Rightarrow> files \<Rightarrow> pqueue \<Rightarrow> (error + request option) \<times> pqueue \<times> files" where
  "pq_pop b fs pq =
     (case curprio pq of
        None \<Rightarrow> (Inr None, pq, fs)
      | Some c \<Rightarrow>
          (case map_of (queues pq) c of
             None \<Rightarrow> (Inl KeyError, pq, fs)
           | Some q \<Rightarrow>
               (let (m, q') = iq_pop b q
                in if length q' = 0
                   then (let qs = AList.delete c (queues pq);
                             prios = map fst (filter (\<lambda>(p, q). length q > 0) qs)
                         in (Inr m, \<lparr> queues = qs, curprio = min_or_none prios \<rparr>,
                             iq_close b fs c q'))
                   else (Inr m, pq\<lparr> queues := AList.update c q' (queues pq) \<rparr>, fs))))"

definition pq_len :: "pqueue \<Rightarrow> nat" where
  "pq_len pq = sum_list (map (\<lambda>(p, q). length q) (queues pq))"

text \<open>\<^verbatim>\<open>close\<close>: the priorities that have entries, and the files after every internal
  queue has been closed.\<close>

definition pq_close :: "backend \<Rightarrow> files \<Rightarrow> pqueue \<Rightarrow> prio list \<times> files" where
  "pq_close b fs pq =
     (map fst (filter (\<lambda>(p, q). length q > 0) (queues pq)),
      fold (\<lambda>(p, q) fs'. iq_close b fs' p q) (queues pq) fs)"

section \<open>The round-robin queue (scrapy/pqueues.py, lines 63-114)\<close>

text \<open>
  The fields \<^verbatim>\<open>_slots\<close> (the rotation, a deque: head first) and \<^verbatim>\<open>pqueues\<close>
  (a dictionary from slot to priority queue).
\<close>

record rrqueue =
  slots :: "string list"
  pqueues :: "(string \<times> pqueue) list"

definition rr_empty :: rrqueue where
  "rr_empty = \<lparr> slots = [], pqueues = [] \<rparr>"

text \<open>
  The value handed to the constructor as \<^verbatim>\<open>startprios\<close>: the dictionary
  \<^verbatim>\<open>close\<close> returned (slot to list of priorities), the flat list of priorities an
  older version wrote, or \<^verbatim>\<open>None\<close>.
\<close>

datatype snapshot =
    SnapNone
  | SnapList "int list"
  | SnapDict "(string \<times> prio list) list"

text \<open>Python's truth value of the snapshot (\<^verbatim>\<open>not startprios\<close> is its negation).\<close>

fun truthy :: "snapshot \<Rightarrow> bool" where
  "truthy SnapNone = False"
| "truthy (SnapList ps) = (ps \<noteq> [])"
| "truthy (SnapDict items) = (items \<noteq> [])"

text \<open>
  \<^verbatim>\<open>RoundRobinQueue.__init__(qfactory, startprios)\<close>: the exception raised, if any,
  and the fields of the object as the constructor leaves them.
\<close>

definition rr_init :: "backend \<Rightarrow> files \<Rightarrow> snapshot \<Rightarrow> error option \<times> rrqueue" where
  "rr_init b fs startprios =
     (if \<not> truthy startprios then (None, rr_empty)
      else (case startprios of
              SnapDict items \<Rightarrow>
                (None,
                 fold (\<lambda>(slot, prios) q.
                         \<lparr> slots = slots q @ [slot],
                           pqueues = AList.update slot (pq_init b fs prios) (pqueues q) \<rparr>)
                      items rr_empty)
            | _ \<Rightarrow> (Some MalformedSnapshotKind, rr_empty)))"

text \<open>
  \<^verbatim>\<open>push(request, priority)\<close>: the exception raised, if any, and the queue after the
  call. The entry stored is the request as \<^verbatim>\<open>scheduler_slot\<close> left it. A new slot
  enters \<^verbatim>\<open>pqueues\<close> and the rotation (lines 87-88) before the priority queue's
  \<^verbatim>\<open>push\<close> (line 89) is called: when that raises, the slot stays in both.
\<close>

definition rr_push ::
  "env \<Rightarrow> backend \<Rightarrow> files \<Rightarrow> rrqueue \<Rightarrow> request \<Rightarrow> int \<Rightarrow> error option \<times> rrqueue" where
  "rr_push e b fs q request priority =
     (case scheduler_slot e request of
        (Inl err, request') \<Rightarrow> (Some err, q)
      | (Inr slot, request') \<Rightarrow>
          (let q1 = (if slot \<notin> fst ` set (pqueues q)
                     then \<lparr> slots = slots q @ [slot],
                            pqueues = AList.update slot (pq_init b fs []) (pqueues q) \<rparr>
                     else q)
           in (case map_of (pqueues q1) slot of
                 None \<Rightarrow> (Some KeyError, q1)
               | Some pq \<Rightarrow>
                   (case pq_push b fs pq request' (priority, slot_as_path e slot) of
                      (err, pq') \<Rightarrow>
                        (err, q1\<lparr> pqueues := AList.update slot pq' (pqueues q1) \<rparr>)))))"

text \<open>\<^verbatim>\<open>pop()\<close>: the request returned (\<open>None\<close> for Python's \<^verbatim>\<open>None\<close>) or the
  exception, the queue and the files after the call.\<close>

definition rr_pop ::
  "backend \<Rightarrow> files \<Rightarrow> rrqueue \<Rightarrow> (error + request option) \<times> rrqueue \<times> files" where
  "rr_pop b fs q =
     (case slots q of
        [] \<Rightarrow> (Inr None, q, fs)
      | slot # rest \<Rightarrow>
          (case map_of (pqueues q) slot of
             None \<Rightarrow> (Inl KeyError, q\<lparr> slots := rest \<rparr>, fs)
           | Some queue \<Rightarrow>
               (case pq_pop b fs queue of
                  (Inl err, queue', fs') \<Rightarrow>
                    (Inl err,
                     \<lparr> slots = rest, pqueues = AList.update slot queue' (pqueues q) \<rparr>, fs')
                | (Inr request, queue', fs') \<Rightarrow>
                    (if pq_len queue' \<noteq> 0
                     then (Inr request,
                           \<lparr> slots = rest @ [slot],
                             pqueues = AList.update slot queue' (pqueues q) \<rparr>, fs')
                     else (Inr request,
                           \<lparr> slots = rest, pqueues = AList.delete slot (pqueues q) \<rparr>,
                           fs')))))"

text \<open>\<^verbatim>\<open>close()\<close>: the snapshot returned, the queue and the files after the call.\<close>

definition rr_close ::
  "backend \<Rightarrow> files \<Rightarrow> rrqueue \<Rightarrow> (string \<times> prio list) list \<times> rrqueue \<times> files" where
  "rr_close b fs q =
     (case fold (\<lambda>(slot, queue) (startprios, fs').
                   (case pq_close b fs' queue of
                      (prios, fs'') \<Rightarrow> (AList.update slot prios startprios, fs'')))
                (pqueues q) ([], fs) of
        (startprios, fs') \<Rightarrow> (startprios, rr_empty, fs'))"

text \<open>\<^verbatim>\<open>__len__\<close>.\<close>

definition rr_len :: "rrqueue \<Rightarrow> nat" where
  "rr_len q = sum_list (map (\<lambda>(slot, queue). pq_len queue) (pqueues q))"

section \<open>Sequences of calls\<close>

text \<open>\<open>n\<close> consecutive calls of \<^verbatim>\<open>pop()\<close>: what each returned, in order, and the queue
  and the files after the last.\<close>

fun rr_pops ::
  "backend \<Rightarrow> nat \<Rightarrow> files \<Rightarrow> rrqueue \<Rightarrow> (error + request option) list \<times> rrqueue \<times> files" where
  "rr_pops b 0 fs q = ([], q, fs)"
| "rr_pops b (Suc n) fs q =
     (case rr_pop b fs q of
        (r, q', fs') \<Rightarrow>
          (case rr_pops b n fs' q' of (rs, q'', fs'') \<Rightarrow> (r # rs, q'', fs'')))"

text \<open>
  A caller's calls on one queue object. The state records, next to the queue and the
  files, how many calls of \<^verbatim>\<open>push\<close> returned without an exception (\<open>pushed\<close>) and
  how many calls of \<^verbatim>\<open>pop\<close> returned a request (\<open>popped\<close>).
\<close>

datatype op = Push request int | Pop | Close

record sysstate =
  queue :: rrqueue
  disk :: files
  pushed :: nat
  popped :: nat

fun exec_op :: "env \<Rightarrow> backend \<Rightarrow> sysstate \<Rightarrow> op \<Rightarrow> sysstate" where
  "exec_op e b st (Push request priority) =
     (case rr_push e b (disk st) (queue st) request priority of
        (None, q') \<Rightarrow> st\<lparr> queue := q', pushed := Suc (pushed st) \<rparr>
      | (Some err, q') \<Rightarrow> st\<lparr> queue := q' \<rparr>)"
| "exec_op e b st Pop =
     (case rr_pop b (disk st) (queue st) of
        (Inr (Some request), q', fs') \<Rightarrow>
          st\<lparr> queue := q', disk := fs', popped := Suc (popped st) \<rparr>
      | (r, q', fs') \<Rightarrow> st\<lparr> queue := q', disk := fs' \<rparr>)"
| "exec_op e b st Close =
     (case rr_close b (disk st) (queue st) of
        (startprios, q', fs') \<Rightarrow> st\<lparr> queue := q', disk := fs' \<rparr>)"

text \<open>The start: a queue constructed without \<^verbatim>\<open>startprios\<close>, no files, nothing
  counted.\<close>

definition initial :: sysstate where
  "initial = \<lparr> queue = rr_empty, disk = (\<lambda>p. []), pushed = 0, popped = 0 \<rparr>"

definition run :: "env \<Rightarrow> backend \<Rightarrow> op list \<Rightarrow> sysstate" where
  "run e b ops = foldl (exec_op e b) initial ops"

section \<open>Unique file names for disk queues (scrapy/core/queues.py, lines 13-23)\<close>

text \<open>
  \<^verbatim>\<open>UniqueFilesQueue.__init__(path)\<close> draws \<^verbatim>\<open>uuid.uuid4().hex\<close> and asks
  \<^verbatim>\<open>os.path.exists\<close>. The values drawn are a parameter: \<open>uuid4_hex i\<close> is the value of
  the draw numbered \<open>i\<close>, and the functions return, next to their result, the number of
  the next draw. The file system is the list of the paths that exist. The loop
  \<^verbatim>\<open>while os.path.exists(path): path = path + "-" + uuid.uuid4().hex\<close>
  ends because every round makes the path longer and only finitely many paths exist.
\<close>

function unique_path_loop :: "(nat \<Rightarrow> string) \<Rightarrow> string list \<Rightarrow> string \<Rightarrow> nat \<Rightarrow> string \<times> nat" where
  "unique_path_loop uuid4_hex existing path n =
     (if path \<in> set existing
      then unique_path_loop uuid4_hex existing (path @ ''-'' @ uuid4_hex n) (Suc n)
      else (path, n))"
  by pat_completeness auto

termination
proof (relation "measure (\<lambda>(u, existing, path, n). Suc (sum_list (map length existing)) - length path)")
  show "wf (measure (\<lambda>(u, existing, path, n). Suc (sum_list (map length existing)) - length path))"
    by simp
next
  fix uuid4_hex :: "nat \<Rightarrow> string" and existing :: "string list" and path :: string and n :: nat
  assume "path \<in> set existing"
  then have "length path \<le> sum_list (map length existing)"
    by (simp add: member_le_sum_list)
  then show "((uuid4_hex, existing, path @ ''-'' @ uuid4_hex n, Suc n), (uuid4_hex, existing, path, n))
        \<in> measure (\<lambda>(u, existing, path, n). Suc (sum_list (map length existing)) - length path)"
    by simp
qed

declare unique_path_loop.simps [simp del]

text \<open>The path that \<^verbatim>\<open>__init__\<close> hands to the constructor of the wrapped class.\<close>

definition unique_path :: "(nat \<Rightarrow> string) \<Rightarrow> string list \<Rightarrow> string \<Rightarrow> nat \<Rightarrow> string \<times> nat" where
  "unique_path uuid4_hex existing path n =
     unique_path_loop uuid4_hex existing (path @ ''-'' @ uuid4_hex n) (Suc n)"

text \<open>\<^verbatim>\<open>unique_files_queue(queue_class)\<close>: constructing the class it returns constructs
  \<^verbatim>\<open>queue_class\<close> with the unique path.\<close>

definition unique_files_queue ::
  "(string \<Rightarrow> 'q) \<Rightarrow> (nat \<Rightarrow> string) \<Rightarrow> string list \<Rightarrow> string \<Rightarrow> nat \<Rightarrow> 'q \<times> nat" where
  "unique_files_queue queue_class uuid4_hex existing path n =
     (case unique_path uuid4_hex existing path n of (path', n') \<Rightarrow> (queue_class path', n'))"

text \<open>\<open>k\<close> suffixes, each a dash and a drawn value, starting at draw \<open>n\<close>.\<close>

definition uuid_suffixes :: "(nat \<Rightarrow> string) \<Rightarrow> nat \<Rightarrow> nat \<Rightarrow> string" where
  "uuid_suffixes uuid4_hex n k = concat (map (\<lambda>i. ''-'' @ uuid4_hex i) [n..<n + k])"

section \<open>The downloader-aware queue\<close>

text \<open>
  Modelled from the spec: the downloader-aware fairness queue of section 4.5, whose class
  (\<^verbatim>\<open>DownloaderAwarePriorityQueue\<close>, named by the tests) is not among the repository's
  files. By the specification it keeps the partitions and the persistence of the
  round-robin queue and a count of the requests in flight per slot, which two hooks keep
  up to date (a slot never heard of counts as zero); \<^verbatim>\<open>pop\<close> serves, instead of the head
  of the rotation, the slot with the fewest requests in flight, the earliest in the
  rotation among equals; push, close and reopen are those of the round-robin queue.
\<close>

record daqueue =
  rr :: rrqueue
  in_flight :: "(string \<times> nat) list"

definition in_flight_of :: "daqueue \<Rightarrow> string \<Rightarrow> nat" where
  "in_flight_of dq slot = (case map_of (in_flight dq) slot of None \<Rightarrow> 0 | Some n \<Rightarrow> n)"

text \<open>Modelled from the spec: the slot with the least count, the leftmost among equals.\<close>

fun least_active :: "(string \<Rightarrow> nat) \<Rightarrow> string list \<Rightarrow> string option" where
  "least_active cnt [] = None"
| "least_active cnt (s # rest) =
     (case least_active cnt rest of
        None \<Rightarrow> Some s
      | Some t \<Rightarrow> if cnt s \<le> cnt t then Some s else Some t)"

text \<open>Modelled from the spec: \<^verbatim>\<open>pop\<close> is the round-robin \<^verbatim>\<open>pop\<close> on the rotation with
  the selected slot taken to its head.\<close>

definition da_pop ::
  "backend \<Rightarrow> files \<Rightarrow> daqueue \<Rightarrow> (error + request option) \<times> daqueue \<times> files" where
  "da_pop b fs dq =
     (case least_active (in_flight_of dq) (slots (rr dq)) of
        None \<Rightarrow> (Inr None, dq, fs)
      | Some slot \<Rightarrow>
          (case rr_pop b fs ((rr dq)\<lparr> slots := slot # remove1 slot (slots (rr dq)) \<rparr>) of
             (r, q', fs') \<Rightarrow> (r, dq\<lparr> rr := q' \<rparr>, fs')))"

text \<open>Modelled from the spec: push, close and reopen as in the round-robin queue; the two
  hooks called when a request starts and ends its transit.\<close>

definition da_push ::
  "env \<Rightarrow> backend \<Rightarrow> files \<Rightarrow> daqueue \<Rightarrow> request \<Rightarrow> int \<Rightarrow> error option \<times> daqueue" where
  "da_push e b fs dq request priority =
     (case rr_push e b fs (rr dq) request priority of (err, q') \<Rightarrow> (err, dq\<lparr> rr := q' \<rparr>))"

definition da_close ::
  "backend \<Rightarrow> files \<Rightarrow> daqueue \<Rightarrow> (string \<times> prio list) list \<times> daqueue \<times> files" where
  "da_close b fs dq =
     (case rr_close b fs (rr dq) of (startprios, q', fs') \<Rightarrow> (startprios, dq\<lparr> rr := q' \<rparr>, fs'))"

definition da_init :: "backend \<Rightarrow> files \<Rightarrow> snapshot \<Rightarrow> error option \<times> daqueue" where
  "da_init b fs startprios =
     (case rr_init b fs startprios of (err, q) \<Rightarrow> (err, \<lparr> rr = q, in_flight = [] \<rparr>))"

definition on_dispatch_start :: "daqueue \<Rightarrow> string \<Rightarrow> daqueue" where
  "on_dispatch_start dq slot =
     dq\<lparr> in_flight := AList.update slot (Suc (in_flight_of dq slot)) (in_flight dq) \<rparr>"

definition on_dispatch_complete :: "daqueue \<Rightarrow> string \<Rightarrow> daqueue" where
  "on_dispatch_complete dq slot =
     dq\<lparr> in_flight := AList.update slot (in_flight_of dq slot - 1) (in_flight dq) \<rparr>"

section \<open>Invariants\<close>

text \<open>No file holds an entry (a fresh job directory, or the memory backend).\<close>

definition no_files :: "backend \<Rightarrow> files \<Rightarrow> bool" where
  "no_files b fs = (durable b \<longrightarrow> fs = (\<lambda>p. []))"

text \<open>The priorities whose internal queue has an entry.\<close>

definition active :: "(prio \<times> request list) list \<Rightarrow> prio list" where
  "active qs = map fst (filter (\<lambda>(p, q). q \<noteq> []) qs)"

text \<open>
  The priority queue's invariant: the priorities are distinct keys and \<^verbatim>\<open>curprio\<close> is
  the least priority that has an entry. (An internal queue without entries can stay
  behind when a \<^verbatim>\<open>push\<close> raised.)
\<close>

definition pq_inv :: "pqueue \<Rightarrow> bool" where
  "pq_inv pq =
     (distinct (map fst (queues pq)) \<and> curprio pq = min_or_none (active (queues pq)))"

text \<open>No internal queue without entries is kept.\<close>

definition pq_full :: "pqueue \<Rightarrow> bool" where
  "pq_full pq = list_all (\<lambda>(p, q). q \<noteq> []) (queues pq)"

text \<open>
  A priority queue, and a round-robin queue, with the internal queues that have no entry
  left out: \<^verbatim>\<open>close\<close> reports only the priorities that have entries, so these are
  what a queue made from the snapshot can hold.
\<close>

definition drop_empty_pq :: "pqueue \<Rightarrow> pqueue" where
  "drop_empty_pq pq = pq\<lparr> queues := filter (\<lambda>(p, q). q \<noteq> []) (queues pq) \<rparr>"

definition drop_empty :: "rrqueue \<Rightarrow> rrqueue" where
  "drop_empty q = q\<lparr> pqueues := map (\<lambda>(s, pq). (s, drop_empty_pq pq)) (pqueues q) \<rparr>"

text \<open>The requests a priority queue holds; the priority queue a new slot starts with.\<close>

definition pq_entries :: "pqueue \<Rightarrow> request set" where
  "pq_entries pq = \<Union> (set ` snd ` set (queues pq))"

definition pq_nil :: pqueue where
  "pq_nil = \<lparr> queues = [], curprio = None \<rparr>"

text \<open>
  What holds of the priority queue of slot \<open>s\<close>: its priorities carry the path of
  \<open>s\<close>, and every request in it resolves to \<open>s\<close> and is left as it is by
  \<^verbatim>\<open>scheduler_slot\<close>.
\<close>

definition slot_inv :: "env \<Rightarrow> string \<Rightarrow> pqueue \<Rightarrow> bool" where
  "slot_inv e s pq =
     (pq_inv pq \<and>
      (\<forall>p \<in> fst ` set (queues pq). snd p = slot_as_path e s) \<and>
      (\<forall>r \<in> pq_entries pq. scheduler_slot e r = (Inr s, r)))"

text \<open>What every call keeps: the rotation holds exactly the keys of \<^verbatim>\<open>pqueues\<close>, each
  once.\<close>

definition rr_wf :: "env \<Rightarrow> rrqueue \<Rightarrow> bool" where
  "rr_wf e q =
     (distinct (slots q) \<and> distinct (map fst (pqueues q)) \<and>
      set (slots q) = fst ` set (pqueues q) \<and>
      (\<forall>(s, pq) \<in> set (pqueues q). slot_inv e s pq))"

text \<open>The round-robin queue's invariant: moreover, every slot holds an entry.\<close>

definition rr_inv :: "env \<Rightarrow> rrqueue \<Rightarrow> bool" where
  "rr_inv e q = (rr_wf e q \<and> (\<forall>(s, pq) \<in> set (pqueues q). 0 < pq_len pq))"

definition run_inv :: "env \<Rightarrow> backend \<Rightarrow> sysstate \<Rightarrow> bool" where
  "run_inv e b st =
     (rr_wf e (queue st) \<and> no_files b (disk st) \<and> rr_len (queue st) + popped st = pushed st)"

text \<open>
  A queue with the one slot \<open>s\<close> whose internal queues are \<open>kvs\<close>; internal queues of
  one entry each; the internal queues that pushing \<open>ps\<close> into slot \<open>s\<close> makes; all
  internal queues of a round-robin queue.
\<close>

definition single :: "string \<Rightarrow> (prio \<times> request list) list \<Rightarrow> rrqueue" where
  "single s kvs =
     (if kvs = [] then rr_empty
      else \<lparr> slots = [s],
             pqueues = [(s, \<lparr> queues = kvs, curprio = min_or_none (map fst kvs) \<rparr>)] \<rparr>)"

definition singletons :: "(prio \<times> request list) list \<Rightarrow> bool" where
  "singletons kvs = list_all (\<lambda>(k, v). length v = 1) kvs"

definition kvs_of :: "env \<Rightarrow> string \<Rightarrow> (request \<times> int) list \<Rightarrow> (prio \<times> request list) list" where
  "kvs_of e s ps = map (\<lambda>(r, p). ((p, slot_as_path e s), [snd (scheduler_slot e r)])) ps"

definition all_queues :: "rrqueue \<Rightarrow> (prio \<times> request list) list" where
  "all_queues q = concat (map (\<lambda>(slot, pq). queues pq) (pqueues q))"

section \<open>Concrete inputs\<close>

text \<open>
  A host-name function that sends every URL to \<^verbatim>\<open>foo.com\<close>, requests without and
  with a slot written into their \<^verbatim>\<open>meta\<close>, the priorities and the slots of the
  repository's scheduler tests (\<^verbatim>\<open>_PRIORITIES\<close> and \<^verbatim>\<open>_SLOTS\<close> of
  tests/test_scheduler.py).
\<close>

definition ex_env :: env where
  "ex_env = \<lparr> hostname = (\<lambda>url. Some ''foo.com''), isalnum = (\<lambda>c. True), md5_hexdigest = (\<lambda>s. s) \<rparr>"

definition ex_backend :: backend where
  "ex_backend = \<lparr> lifo = True, durable = True, storable = (\<lambda>r. True) \<rparr>"

text \<open>A disk backend that cannot serialise one of the requests.\<close>

definition ex_picky_backend :: backend where
  "ex_picky_backend =
     \<lparr> lifo = True, durable = True,
       storable = (\<lambda>r. r \<noteq> Request [(''download_slot'', PyStr ''a'')] ''http://foo.com/unserialisable'') \<rparr>"

definition ex_files :: files where
  "ex_files = (\<lambda>p. [])"

definition ex_request :: "string \<Rightarrow> request" where
  "ex_request path = Request [] (''http://foo.com/'' @ path)"

definition ex_stored :: "string \<Rightarrow> request" where
  "ex_stored path = Request [(''download_slot'', PyStr ''foo.com'')] (''http://foo.com/'' @ path)"

definition ex_slotted :: "string \<Rightarrow> string \<Rightarrow> request" where
  "ex_slotted path slot = Request [(''download_slot'', PyStr slot)] (''http://foo.com/'' @ path)"

definition ex_priorities :: "(request \<times> int) list" where
  "ex_priorities = [(ex_request ''a'', -2), (ex_request ''d'', 1), (ex_request ''b'', -1),
                    (ex_request ''c'', 0), (ex_request ''e'', 2)]"

definition ex_slots :: "op list" where
  "ex_slots = [Push (ex_slotted ''a'' ''a'') 0, Push (ex_slotted ''b'' ''a'') 0,
               Push (ex_slotted ''c'' ''b'') 0, Push (ex_slotted ''d'' ''b'') 0,
               Push (ex_slotted ''e'' ''d'') 0, Push (ex_slotted ''f'' ''d'') 0,
               Push (ex_slotted ''g'' ''c'') 0, Push (ex_slotted ''h'' ''c'') 0]"


definition ex_pushes :: "(request \<times> int) list" where
  "ex_pushes = [(ex_slotted ''a'' ''a'', 1), (ex_slotted ''c'' ''b'', 4), (ex_slotted ''b'' ''a'', 0)]"

definition ex_uuid4_hex :: "nat \<Rightarrow> string" where
  "ex_uuid4_hex i = (if i = 0 then ''0f'' else ''a1'')"

definition ex_daqueue :: daqueue where
  "ex_daqueue = \<lparr> rr = queue (run ex_env ex_backend ex_slots),
                  in_flight = [(''a'', 2), (''b'', 0), (''c'', 0), (''d'', 1)] \<rparr>"

section \<open>The priority queue keeps its invariant\<close>

lemma qfactory_no_files: "no_files b fs \<Longrightarrow> qfactory b fs p = []"
  by (simp add: no_files_def qfactory_def)

lemma iq_close_no_files: "no_files b fs \<Longrightarrow> iq_close b fs p [] = fs"
  by (auto simp add: no_files_def iq_close_def)

lemma keys_update: "fst ` set (AList.update p v qs) = insert p (fst ` set qs)"
  by (simp add: dom_update)

lemma map_of_None_keys: "map_of qs p = None \<longleftrightarrow> p \<notin> fst ` set qs"
  by (simp add: map_of_eq_None_iff)

lemma update_fresh: "k \<notin> fst ` set kvs \<Longrightarrow> AList.update k v kvs = kvs @ [(k, v)]"
  by (induction kvs) auto

lemma active_alt: "map fst (filter (\<lambda>(p, q). length q > 0) qs) = active qs"
  by (simp add: active_def)

lemma active_Cons:
  "active ((k, v) # qs) = (if v \<noteq> [] then k # active qs else active qs)"
  by (simp add: active_def)

lemma active_update_nonempty:
  "v \<noteq> [] \<Longrightarrow> set (active (AList.update p v qs)) = insert p (set (active qs))"
proof (induction qs)
  case Nil
  then show ?case by (simp add: active_def)
next
  case (Cons a qs)
  obtain k w where a: "a = (k, w)" by (cases a)
  show ?case
  proof (cases "k = p")
    case True
    with Cons.prems show ?thesis by (auto simp: a active_Cons)
  next
    case False
    with Cons show ?thesis by (auto simp: a active_Cons)
  qed
qed

lemma active_delete: "set (active (AList.delete c qs)) = set (active qs) - {c}"
  by (induction qs) (auto simp: active_def)

lemma active_append_empty: "active (qs @ [(p, [])]) = active qs"
  by (simp add: active_def)

lemma active_full: "list_all (\<lambda>(p, q). q \<noteq> []) qs \<Longrightarrow> active qs = map fst qs"
  by (induction qs) (auto simp: active_def)

lemma min_or_none_cong_set: "set ps = set qs \<Longrightarrow> min_or_none ps = min_or_none qs"
proof -
  assume s: "set ps = set qs"
  then have "ps = [] \<longleftrightarrow> qs = []" by (metis set_empty)
  with s show ?thesis by (auto simp: min_or_none_def min_list_Min)
qed

lemma min_or_none_insert:
  assumes "set qs = insert p (set ps)"
  shows "min_or_none qs =
     (case min_or_none ps of None \<Rightarrow> Some p | Some c \<Rightarrow> if p < c then Some p else Some c)"
proof (cases "ps = []")
  case True
  with assms have ne: "qs \<noteq> []" and "set qs = {p}" by auto
  then show ?thesis using True by (simp add: min_or_none_def min_list_Min)
next
  case False
  from assms have ne: "qs \<noteq> []" by auto
  have "min_list qs = Min (insert p (set ps))" using min_list_Min[OF ne] assms by simp
  also have "\<dots> = min p (Min (set ps))" using False by (subst Min_insert) auto
  also have "\<dots> = min p (min_list ps)" using min_list_Min[OF False] by simp
  finally show ?thesis using ne False by (auto simp: min_or_none_def min_def)
qed

lemma min_or_none_mem: "min_or_none ps = Some c \<Longrightarrow> c \<in> set ps"
  by (auto simp: min_or_none_def min_list_Min split: if_splits dest!: Min_in[OF finite_set, of ps])

lemma active_mem: "c \<in> set (active qs) \<Longrightarrow> \<exists>q. (c, q) \<in> set qs \<and> q \<noteq> []"
  by (auto simp: active_def)

lemma pq_push_stored:
  assumes "storable b r"
  shows "pq_push b fs pq r p =
     (None,
      \<lparr> queues = AList.update p
                   ((case map_of (queues pq) p of None \<Rightarrow> qfactory b fs p | Some q \<Rightarrow> q) @ [r])
                   (queues pq),
        curprio = (case curprio pq of
                     None \<Rightarrow> Some p
                   | Some c \<Rightarrow> if p < c then Some p else Some c) \<rparr>)"
proof (cases "map_of (queues pq) p")
  case None
  then have "p \<notin> fst ` set (queues pq)" by (simp add: map_of_None_keys)
  then show ?thesis using None assms
    by (simp add: pq_push_def Let_def iq_push_def update_conv')
next
  case (Some q)
  then have "p \<in> fst ` set (queues pq)" using map_of_None_keys[of "queues pq" p] by auto
  then show ?thesis using Some assms
    by (simp add: pq_push_def Let_def iq_push_def)
qed

lemma pq_push_refused:
  assumes "\<not> storable b r"
  shows "pq_push b fs pq r p =
     (Some StorageIOKind,
      pq\<lparr> queues := (if p \<in> fst ` set (queues pq) then queues pq
                      else queues pq @ [(p, qfactory b fs p)]) \<rparr>)"
  using assms by (simp add: pq_push_def Let_def iq_push_def update_fresh)

lemma pq_push_fst:
  "fst (pq_push b fs pq r p) = (if storable b r then None else Some StorageIOKind)"
  by (simp add: pq_push_stored pq_push_refused)

lemma pq_push_inv:
  assumes "pq_inv pq" "no_files b fs"
  shows "pq_inv (snd (pq_push b fs pq r p))"
proof (cases "storable b r")
  case True
  let ?v = "(case map_of (queues pq) p of None \<Rightarrow> qfactory b fs p | Some q \<Rightarrow> q) @ [r]"
  have "set (active (AList.update p ?v (queues pq))) = insert p (set (active (queues pq)))"
    by (rule active_update_nonempty) simp
  from min_or_none_insert[OF this] assms(1) show ?thesis
    by (simp add: pq_push_stored[OF True] pq_inv_def distinct_update)
next
  case False
  show ?thesis using assms
    by (simp add: pq_push_refused[OF False] pq_inv_def qfactory_no_files active_append_empty)
qed

lemma sum_update:
  "distinct (map fst qs) \<Longrightarrow>
   sum_list (map (\<lambda>(p, q). f q) (AList.update k v qs)) + (case map_of qs k of None \<Rightarrow> 0 | Some q \<Rightarrow> f q)
    = sum_list (map (\<lambda>(p, q). f q) qs) + (f v :: nat)"
  by (induction qs) (auto simp: rev_image_eqI split: option.splits)

lemma sum_delete:
  "distinct (map fst qs) \<Longrightarrow> map_of qs k = Some v \<Longrightarrow>
   sum_list (map (\<lambda>(p, q). f q) (AList.delete k qs)) + (f v :: nat)
    = sum_list (map (\<lambda>(p, q). f q) qs)"
  by (induction qs) (auto simp: rev_image_eqI split: if_splits)

lemma pq_push_len:
  assumes "distinct (map fst (queues pq))" "no_files b fs"
  shows "pq_len (snd (pq_push b fs pq r p)) = pq_len pq + (if storable b r then 1 else 0)"
proof (cases "storable b r")
  case True
  define v where "v = (case map_of (queues pq) p of None \<Rightarrow> [] | Some q \<Rightarrow> q)"
  have q: "queues (snd (pq_push b fs pq r p)) = AList.update p (v @ [r]) (queues pq)"
    using assms(2) by (simp add: pq_push_stored[OF True] qfactory_no_files v_def split: option.splits)
  have "(case map_of (queues pq) p of None \<Rightarrow> 0 | Some q \<Rightarrow> length q) = length v"
    by (simp add: v_def split: option.splits)
  then show ?thesis
    using sum_update[OF assms(1), of length p "v @ [r]"] True by (simp add: pq_len_def q)
next
  case False
  then show ?thesis using assms(2)
    by (simp add: pq_push_refused pq_len_def qfactory_no_files)
qed

lemma set_update_subset: "set (AList.update k v qs) \<subseteq> insert (k, v) (set qs)"
  by (induction qs) auto

lemma set_delete_subset: "set (AList.delete k qs) \<subseteq> set qs"
  by (induction qs) auto

lemma pq_push_entries:
  assumes nf: "no_files b fs"
  shows "pq_entries (snd (pq_push b fs pq r p)) \<subseteq> insert r (pq_entries pq)"
proof (cases "storable b r")
  case True
  show ?thesis
  proof
    fix y assume "y \<in> pq_entries (snd (pq_push b fs pq r p))"
    let ?v0 = "case map_of (queues pq) p of None \<Rightarrow> qfactory b fs p | Some q \<Rightarrow> q"
    from \<open>y \<in> _\<close> obtain k v where kv: "(k, v) \<in> set (AList.update p (?v0 @ [r]) (queues pq))" "y \<in> set v"
      by (auto simp: pq_entries_def pq_push_stored[OF True])
    from kv(1) have "(k, v) = (p, ?v0 @ [r]) \<or> (k, v) \<in> set (queues pq)"
      using set_update_subset[of p "?v0 @ [r]" "queues pq"] by auto
    then show "y \<in> insert r (pq_entries pq)"
    proof
      assume "(k, v) = (p, ?v0 @ [r])"
      with kv(2) have "y = r \<or> y \<in> set ?v0" by auto
      then show ?thesis using nf
        by (force simp: qfactory_no_files pq_entries_def split: option.splits dest!: map_of_SomeD)
    next
      assume "(k, v) \<in> set (queues pq)"
      with kv(2) show ?thesis by (force simp: pq_entries_def)
    qed
  qed
next
  case False
  then show ?thesis using nf
    by (auto simp: pq_push_refused pq_entries_def qfactory_no_files)
qed

lemma pq_push_keys:
  "fst ` set (queues (snd (pq_push b fs pq r p))) = insert p (fst ` set (queues pq))"
  by (cases "storable b r") (auto simp: pq_push_stored pq_push_refused keys_update)

lemma list_all_update:
  "list_all P qs \<Longrightarrow> P (k, v) \<Longrightarrow> list_all P (AList.update k v qs)"
  by (induction qs) auto

lemma list_all_delete: "list_all P qs \<Longrightarrow> list_all P (AList.delete k qs)"
  by (induction qs) auto

lemma pq_push_full:
  "pq_full pq \<Longrightarrow> storable b r \<Longrightarrow> pq_full (snd (pq_push b fs pq r p))"
  by (simp add: pq_full_def pq_push_stored list_all_update)

lemma pq_len_zero_iff: "pq_len pq = 0 \<longleftrightarrow> active (queues pq) = []"
proof -
  have "sum_list (map (\<lambda>(p, q). length q) qs) = 0 \<longleftrightarrow> active qs = []" for qs :: "(prio \<times> request list) list"
    by (induction qs) (auto simp: active_def)
  then show ?thesis by (simp add: pq_len_def)
qed

lemma pq_pop_empty:
  assumes "pq_inv pq" "pq_len pq = 0"
  shows "pq_pop b fs pq = (Inr None, pq, fs)"
  using assms by (simp add: pq_inv_def pq_len_zero_iff pq_pop_def min_or_none_def)

lemma iq_pop_nonempty:
  assumes "q \<noteq> []"
  obtains x q' where "iq_pop b q = (Some x, q')" "x \<in> set q" "set q' \<subseteq> set q"
    "Suc (length q') = length q"
proof (cases "lifo b")
  case True
  show ?thesis
    by (rule that[of "last q" "butlast q"])
       (use assms True in \<open>auto simp: iq_pop_def dest: in_set_butlastD\<close>)
next
  case False
  show ?thesis
    by (rule that[of "hd q" "tl q"])
       (use assms False in \<open>auto simp: iq_pop_def dest: list.set_sel(2)\<close>)
qed

lemma pq_pop_nonempty:
  assumes inv: "pq_inv pq" and ne: "0 < pq_len pq" and nf: "no_files b fs"
  obtains x pq' where "pq_pop b fs pq = (Inr (Some x), pq', fs)" "pq_inv pq'"
    "Suc (pq_len pq') = pq_len pq" "x \<in> pq_entries pq" "pq_entries pq' \<subseteq> pq_entries pq"
    "fst ` set (queues pq') \<subseteq> fst ` set (queues pq)" "pq_full pq \<longrightarrow> pq_full pq'"
proof -
  from ne have "active (queues pq) \<noteq> []" using pq_len_zero_iff[of pq] by simp
  with inv obtain c where c: "curprio pq = Some c"
    by (auto simp: pq_inv_def min_or_none_def)
  with inv have cact: "c \<in> set (active (queues pq))"
    using min_or_none_mem[of "active (queues pq)" c] by (simp add: pq_inv_def)
  from active_mem[OF this] obtain q where qin: "(c, q) \<in> set (queues pq)" and qne: "q \<noteq> []"
    by blast
  from inv have dist: "distinct (map fst (queues pq))" by (simp add: pq_inv_def)
  from qin dist have q: "map_of (queues pq) c = Some q" by simp
  from qin have cin: "c \<in> fst ` set (queues pq)" by force
  from iq_pop_nonempty[OF qne, of b] obtain x q' where
    ip: "iq_pop b q = (Some x, q')" "x \<in> set q" "set q' \<subseteq> set q" "Suc (length q') = length q"
    by blast
  have xin: "x \<in> pq_entries pq" using qin ip(2) by (force simp: pq_entries_def)
  show ?thesis
  proof (cases "q' = []")
    case True
    let ?pq' = "\<lparr> queues = AList.delete c (queues pq),
                  curprio = min_or_none (active (AList.delete c (queues pq))) \<rparr>"
    have 1: "pq_pop b fs pq = (Inr (Some x), ?pq', fs)"
      using c q ip(1) True nf
      by (simp add: pq_pop_def Let_def iq_close_no_files active_def)
    have 2: "pq_inv ?pq'" using dist by (simp add: pq_inv_def distinct_delete)
    have 3: "Suc (pq_len ?pq') = pq_len pq"
      using sum_delete[OF dist q, of length] ip(4) True by (simp add: pq_len_def)
    have 4: "pq_entries ?pq' \<subseteq> pq_entries pq"
      using set_delete_subset[of c "queues pq"] by (auto simp: pq_entries_def)
    have 5: "fst ` set (queues ?pq') \<subseteq> fst ` set (queues pq)"
      using set_delete_subset[of c "queues pq"] by auto
    have 6: "pq_full pq \<longrightarrow> pq_full ?pq'" by (simp add: pq_full_def list_all_delete)
    show ?thesis using that[OF 1 2 3 xin 4 5 6] .
  next
    case False
    let ?pq' = "pq\<lparr> queues := AList.update c q' (queues pq) \<rparr>"
    have 1: "pq_pop b fs pq = (Inr (Some x), ?pq', fs)"
      using c q ip(1) False by (simp add: pq_pop_def Let_def)
    have "set (active (AList.update c q' (queues pq))) = set (active (queues pq))"
      using active_update_nonempty[OF False, of c "queues pq"] cact by auto
    from min_or_none_cong_set[OF this] have 2: "pq_inv ?pq'"
      using inv by (simp add: pq_inv_def distinct_update)
    have 3: "Suc (pq_len ?pq') = pq_len pq"
      using sum_update[OF dist, of length c q'] q ip(4) by (simp add: pq_len_def)
    have 4: "pq_entries ?pq' \<subseteq> pq_entries pq"
    proof
      fix y assume "y \<in> pq_entries ?pq'"
      then obtain k v where kv: "(k, v) \<in> set (AList.update c q' (queues pq))" "y \<in> set v"
        by (auto simp: pq_entries_def)
      then have "(k, v) = (c, q') \<or> (k, v) \<in> set (queues pq)"
        using set_update_subset[of c q' "queues pq"] by auto
      then show "y \<in> pq_entries pq"
        using kv(2) ip(3) qin by (force simp: pq_entries_def)
    qed
    have 5: "fst ` set (queues ?pq') \<subseteq> fst ` set (queues pq)"
      using cin by (simp add: keys_update)
    have 6: "pq_full pq \<longrightarrow> pq_full ?pq'" using False by (simp add: pq_full_def list_all_update)
    show ?thesis using that[OF 1 2 3 xin 4 5 6] .
  qed
qed

section \<open>Slot resolution\<close>

lemma scheduler_slot_error:
  "fst (scheduler_slot e r) = Inl err \<Longrightarrow> scheduler_slot e r = (Inl InvalidRequestKind, r)"
  by (cases r) (auto simp: scheduler_slot_def Let_def split: pyval.splits option.splits)

lemma meta_get_update: "meta_get (AList.update k v m) k = v"
  by (simp add: meta_get_def update_conv')

lemma scheduler_slot_writes_back:
  assumes "meta_get m SCHEDULER_SLOT_META_KEY = PyNone"
  shows "scheduler_slot e (Request m u) =
           (Inr (case hostname e (Some u) of None \<Rightarrow> [] | Some h \<Rightarrow> h),
            Request (AList.update SCHEDULER_SLOT_META_KEY
                       (PyStr (case hostname e (Some u) of None \<Rightarrow> [] | Some h \<Rightarrow> h)) m) u)"
    and "scheduler_slot e (DictRequest (Some m) url) =
           (Inr (case hostname e url of None \<Rightarrow> [] | Some h \<Rightarrow> h),
            DictRequest (Some (AList.update SCHEDULER_SLOT_META_KEY
                       (PyStr (case hostname e url of None \<Rightarrow> [] | Some h \<Rightarrow> h)) m)) url)"
  using assms by (simp_all add: scheduler_slot_def Let_def)

lemma scheduler_slot_stable:
  assumes "scheduler_slot e r = (Inr s, r')"
  shows "scheduler_slot e r' = (Inr s, r')"
proof (cases r)
  case (DictRequest m u)
  show ?thesis
  proof (cases m)
    case None
    with DictRequest assms show ?thesis
      by (auto simp: scheduler_slot_def Let_def meta_get_def split: pyval.splits)
  next
    case (Some d)
    with DictRequest assms show ?thesis
      by (cases "meta_get d SCHEDULER_SLOT_META_KEY")
         (auto simp: scheduler_slot_def Let_def meta_get_update)
  qed
next
  case (Request d u)
  with assms show ?thesis
    by (cases "meta_get d SCHEDULER_SLOT_META_KEY")
       (auto simp: scheduler_slot_def Let_def meta_get_update)
next
  case (OtherValue x)
  with assms show ?thesis by (simp add: scheduler_slot_def)
qed

text \<open>
  Claim C6 says that resolving the slot of a request without a slot override derives the
  key from the URL's host and writes it back into the request's metadata, for a request
  object and for a plain dictionary alike. For a plain dictionary that has no
  \<^verbatim>\<open>'meta'\<close> entry the code derives the key, but the dictionary it writes to is the
  default \<^verbatim>\<open>dict()\<close> of \<^verbatim>\<open>_get_from_request\<close>: the request is left as it was, and
  its metadata still is empty afterwards. (Request objects and dictionaries with a
  \<^verbatim>\<open>'meta'\<close> entry do get the key, \<open>scheduler_slot_writes_back\<close>; a later resolution
  returns the same key in every case, \<open>scheduler_slot_stable\<close>.)
\<close>

theorem C6_dict_without_meta:
  "scheduler_slot e (DictRequest None u) =
     (Inr (case hostname e u of None \<Rightarrow> [] | Some h \<Rightarrow> h), DictRequest None u)
   \<and> get_meta_from_request (snd (scheduler_slot e (DictRequest None u))) = Inr []"
  by (simp add: scheduler_slot_def meta_get_def Let_def)

text \<open>
  Claim C7: for a value that is neither a request object nor a plain dictionary,
  \<^verbatim>\<open>push\<close> raises the \<^verbatim>\<open>ValueError\<close> of a bad request type, and the queue (rotation
  and slot-to-queue dictionary) is as it was before the call.
\<close>

theorem C7_invalid:
  "rr_push e b fs q (OtherValue x) priority = (Some InvalidRequestKind, q)"
  by (simp add: rr_push_def scheduler_slot_def)

section \<open>The round-robin queue keeps its invariant\<close>

lemma rr_close_fold:
  "fold (\<lambda>(slot, queue) (startprios, fs').
           (case pq_close b fs' queue of
              (prios, fs'') \<Rightarrow> (AList.update slot prios startprios, fs'')))
        pqs (acc, fs)
   = (fold (\<lambda>(slot, queue) startprios.
              AList.update slot (fst (pq_close b fs0 queue)) startprios) pqs acc,
      fold (\<lambda>(slot, queue) fs'. snd (pq_close b fs' queue)) pqs fs)"
  by (induction pqs arbitrary: acc fs) (auto simp: pq_close_def)

lemma rr_close_eq:
  "rr_close b fs q =
     (fold (\<lambda>(slot, queue) startprios.
              AList.update slot (fst (pq_close b fs queue)) startprios)
           (pqueues q) [],
      rr_empty,
      fold (\<lambda>(slot, queue) fs'. snd (pq_close b fs' queue)) (pqueues q) fs)"
  by (simp add: rr_close_def rr_close_fold[where ?fs0.0 = fs])

lemma rr_wf_empty: "rr_wf e rr_empty"
  by (simp add: rr_wf_def rr_empty_def)

lemma pq_init_nil: "pq_init b fs [] = pq_nil"
  by (simp add: pq_init_def min_or_none_def pq_nil_def)

lemma pq_inv_nil: "pq_inv pq_nil"
  by (simp add: pq_inv_def min_or_none_def pq_nil_def active_def)

lemma rr_push_resolved:
  assumes "scheduler_slot e r = (Inr s, r')"
  shows "rr_push e b fs q r p =
          (fst (pq_push b fs (case map_of (pqueues q) s of None \<Rightarrow> pq_nil | Some pq \<Rightarrow> pq)
                  r' (p, slot_as_path e s)),
           \<lparr> slots = (if s \<in> fst ` set (pqueues q) then slots q else slots q @ [s]),
             pqueues = AList.update s
               (snd (pq_push b fs (case map_of (pqueues q) s of None \<Rightarrow> pq_nil | Some pq \<Rightarrow> pq)
                  r' (p, slot_as_path e s)))
               (pqueues q) \<rparr>)"
proof (cases "map_of (pqueues q) s")
  case None
  then have "s \<notin> fst ` set (pqueues q)" by (simp add: map_of_None_keys)
  then show ?thesis using assms None
    by (simp add: rr_push_def Let_def update_conv' pq_init_nil split: prod.splits)
next
  case (Some pq)
  then have "s \<in> fst ` set (pqueues q)" using map_of_None_keys[of "pqueues q" s] by auto
  then show ?thesis using assms Some
    by (simp add: rr_push_def Let_def split: prod.splits)
qed

lemma rr_push_error:
  assumes "fst (scheduler_slot e r) = Inl err"
  shows "rr_push e b fs q r p = (Some InvalidRequestKind, q)"
  using scheduler_slot_error[OF assms] by (simp add: rr_push_def)

lemma rr_push_fst:
  assumes "scheduler_slot e r = (Inr s, r')"
  shows "fst (rr_push e b fs q r p) = (if storable b r' then None else Some StorageIOKind)"
  by (simp add: rr_push_resolved[OF assms] pq_push_fst)

lemma slot_inv_lookup:
  "rr_wf e q \<Longrightarrow> map_of (pqueues q) s = Some pq \<Longrightarrow> slot_inv e s pq"
  by (auto simp: rr_wf_def dest!: map_of_SomeD)

lemma slot_inv_nil: "slot_inv e s pq_nil"
  using pq_inv_nil by (simp add: slot_inv_def) (simp add: pq_nil_def pq_entries_def)

lemma slot_inv_start:
  "rr_wf e q \<Longrightarrow> slot_inv e s (case map_of (pqueues q) s of None \<Rightarrow> pq_nil | Some pq \<Rightarrow> pq)"
  by (cases "map_of (pqueues q) s") (simp_all add: slot_inv_nil slot_inv_lookup)

lemma slot_inv_push:
  assumes "slot_inv e s pq" "no_files b fs" "scheduler_slot e r' = (Inr s, r')"
  shows "slot_inv e s (snd (pq_push b fs pq r' (n, slot_as_path e s)))"
  unfolding slot_inv_def
proof (intro conjI)
  show "pq_inv (snd (pq_push b fs pq r' (n, slot_as_path e s)))"
    using assms(1,2) by (simp add: slot_inv_def pq_push_inv)
  show "\<forall>p\<in>fst ` set (queues (snd (pq_push b fs pq r' (n, slot_as_path e s)))).
          snd p = slot_as_path e s"
    using assms(1) by (simp add: pq_push_keys slot_inv_def)
  show "\<forall>r\<in>pq_entries (snd (pq_push b fs pq r' (n, slot_as_path e s))).
          scheduler_slot e r = (Inr s, r)"
    using pq_push_entries[OF assms(2), of pq r' "(n, slot_as_path e s)"] assms(1,3)
    by (auto simp: slot_inv_def)
qed

lemma rr_push_wf:
  assumes wf: "rr_wf e q" and nf: "no_files b fs"
  shows "rr_wf e (snd (rr_push e b fs q r p))"
proof (cases "fst (scheduler_slot e r)")
  case (Inl err)
  from rr_push_error[OF Inl] wf show ?thesis by simp
next
  case (Inr s)
  then obtain r' where ss: "scheduler_slot e r = (Inr s, r')" by (cases "scheduler_slot e r") auto
  define pq0 where "pq0 = (case map_of (pqueues q) s of None \<Rightarrow> pq_nil | Some pq \<Rightarrow> pq)"
  define v where "v = snd (pq_push b fs pq0 r' (p, slot_as_path e s))"
  have q': "snd (rr_push e b fs q r p) =
      \<lparr> slots = (if s \<in> fst ` set (pqueues q) then slots q else slots q @ [s]),
        pqueues = AList.update s v (pqueues q) \<rparr>"
    by (simp add: rr_push_resolved[OF ss] v_def pq0_def)
  have st': "scheduler_slot e r' = (Inr s, r')" using ss by (rule scheduler_slot_stable)
  have "slot_inv e s pq0" unfolding pq0_def using wf by (rule slot_inv_start)
  then have v: "slot_inv e s v" unfolding v_def using nf st' by (rule slot_inv_push)
  have all: "\<forall>(s', pq') \<in> set (AList.update s v (pqueues q)). slot_inv e s' pq'"
    using set_update_subset[of s v "pqueues q"] wf v by (auto simp: rr_wf_def)
  show ?thesis
    unfolding q' using wf all
    by (auto simp: rr_wf_def distinct_update keys_update)
qed

lemma rr_push_len:
  assumes wf: "rr_wf e q" and nf: "no_files b fs" and ss: "scheduler_slot e r = (Inr s, r')"
  shows "rr_len (snd (rr_push e b fs q r p)) = rr_len q + (if storable b r' then 1 else 0)"
proof -
  define pq0 where "pq0 = (case map_of (pqueues q) s of None \<Rightarrow> pq_nil | Some pq \<Rightarrow> pq)"
  define v where "v = snd (pq_push b fs pq0 r' (p, slot_as_path e s))"
  have q': "pqueues (snd (rr_push e b fs q r p)) = AList.update s v (pqueues q)"
    by (simp add: rr_push_resolved[OF ss] v_def pq0_def)
  have "slot_inv e s pq0" unfolding pq0_def using wf by (rule slot_inv_start)
  then have d0: "distinct (map fst (queues pq0))" by (simp add: slot_inv_def pq_inv_def)
  have lv: "pq_len v = pq_len pq0 + (if storable b r' then 1 else 0)"
    unfolding v_def using d0 nf by (rule pq_push_len)
  have l0: "(case map_of (pqueues q) s of None \<Rightarrow> 0 | Some pq \<Rightarrow> pq_len pq) = pq_len pq0"
    by (simp add: pq0_def pq_nil_def pq_len_def split: option.splits)
  from wf have "distinct (map fst (pqueues q))" by (simp add: rr_wf_def)
  from sum_update[OF this, of pq_len s v] show ?thesis
    by (simp add: rr_len_def q' lv l0)
qed

lemma rr_push_inv:
  assumes inv: "rr_inv e q" and nf: "no_files b fs" and ss: "scheduler_slot e r = (Inr s, r')"
    and st: "storable b r'"
  shows "rr_inv e (snd (rr_push e b fs q r p))"
proof -
  define pq0 where "pq0 = (case map_of (pqueues q) s of None \<Rightarrow> pq_nil | Some pq \<Rightarrow> pq)"
  define v where "v = snd (pq_push b fs pq0 r' (p, slot_as_path e s))"
  have q': "pqueues (snd (rr_push e b fs q r p)) = AList.update s v (pqueues q)"
    by (simp add: rr_push_resolved[OF ss] v_def pq0_def)
  from inv have wf: "rr_wf e q" by (simp add: rr_inv_def)
  have "slot_inv e s pq0" unfolding pq0_def using wf by (rule slot_inv_start)
  then have d0: "distinct (map fst (queues pq0))" by (simp add: slot_inv_def pq_inv_def)
  have "0 < pq_len v" unfolding v_def using pq_push_len[OF d0 nf, of r' "(p, slot_as_path e s)"] st
    by simp
  then have "\<forall>(s', pq') \<in> set (AList.update s v (pqueues q)). 0 < pq_len pq'"
    using set_update_subset[of s v "pqueues q"] inv by (auto simp: rr_inv_def)
  with rr_push_wf[OF wf nf, of r p] show ?thesis by (simp add: rr_inv_def q')
qed

lemma rr_pop_empty: "slots q = [] \<Longrightarrow> rr_pop b fs q = (Inr None, q, fs)"
  by (simp add: rr_pop_def)

lemma keys_delete: "fst ` set (AList.delete k qs) = fst ` set qs - {k}"
  by (induction qs) auto

lemma rr_wf_head:
  assumes "rr_wf e q" "slots q = s # rest"
  obtains pq where "map_of (pqueues q) s = Some pq" "slot_inv e s pq"
proof -
  from assms have "s \<in> fst ` set (pqueues q)" by (auto simp: rr_wf_def)
  then obtain pq where pq: "map_of (pqueues q) s = Some pq"
    using map_of_None_keys[of "pqueues q" s] by (cases "map_of (pqueues q) s") auto
  with slot_inv_lookup[OF assms(1) pq] that show ?thesis by blast
qed

lemma rr_wf_delete:
  assumes "rr_wf e q" "slots q = s # rest"
  shows "rr_wf e \<lparr> slots = rest, pqueues = AList.delete s (pqueues q) \<rparr>"
proof -
  from assms have "s \<notin> set rest" "distinct rest" "fst ` set (pqueues q) = insert s (set rest)"
    by (auto simp: rr_wf_def)
  then show ?thesis
    using assms(1) set_delete_subset[of s "pqueues q"]
    by (auto simp: rr_wf_def distinct_delete keys_delete)
qed

lemma rr_pop_drained:
  assumes wf: "rr_wf e q" and sl: "slots q = s # rest"
    and pq: "map_of (pqueues q) s = Some pq" and z: "pq_len pq = 0"
  shows "rr_pop b fs q = (Inr None, \<lparr> slots = rest, pqueues = AList.delete s (pqueues q) \<rparr>, fs)"
    and "rr_len \<lparr> slots = rest, pqueues = AList.delete s (pqueues q) \<rparr> = rr_len q"
proof -
  from slot_inv_lookup[OF wf pq] have "pq_inv pq" by (simp add: slot_inv_def)
  from pq_pop_empty[OF this z] sl pq z
  show "rr_pop b fs q = (Inr None, \<lparr> slots = rest, pqueues = AList.delete s (pqueues q) \<rparr>, fs)"
    by (simp add: rr_pop_def)
  from wf have "distinct (map fst (pqueues q))" by (simp add: rr_wf_def)
  from sum_delete[OF this pq, of pq_len] z
  show "rr_len \<lparr> slots = rest, pqueues = AList.delete s (pqueues q) \<rparr> = rr_len q"
    by (simp add: rr_len_def)
qed

lemma rr_pop_nonempty:
  assumes wf: "rr_wf e q" and nf: "no_files b fs" and sl: "slots q = s # rest"
    and pq: "map_of (pqueues q) s = Some pq" and ne: "0 < pq_len pq"
  obtains x q' pq' where "rr_pop b fs q = (Inr (Some x), q', fs)" "rr_wf e q'"
    "Suc (rr_len q') = rr_len q" "scheduler_slot e x = (Inr s, x)"
    "slots q' = rest @ [s] \<and> pqueues q' = AList.update s pq' (pqueues q) \<and> 0 < pq_len pq' \<or>
     slots q' = rest \<and> pqueues q' = AList.delete s (pqueues q)"
    "pq_full pq \<longrightarrow> pq_full pq'"
proof -
  from slot_inv_lookup[OF wf pq] have si: "slot_inv e s pq" .
  from wf have dist: "distinct (map fst (pqueues q))" by (simp add: rr_wf_def)
  from wf sl have srest: "s \<notin> set rest" "distinct rest" by (auto simp: rr_wf_def)
  from wf sl have keys: "fst ` set (pqueues q) = insert s (set rest)" by (auto simp: rr_wf_def)
  from si have "pq_inv pq" by (simp add: slot_inv_def)
  from pq_pop_nonempty[OF this ne nf] obtain x pq' where
    pp: "pq_pop b fs pq = (Inr (Some x), pq', fs)" "pq_inv pq'" "Suc (pq_len pq') = pq_len pq"
      "x \<in> pq_entries pq" "pq_entries pq' \<subseteq> pq_entries pq"
      "fst ` set (queues pq') \<subseteq> fst ` set (queues pq)" "pq_full pq \<longrightarrow> pq_full pq'"
    by blast
  have xs: "scheduler_slot e x = (Inr s, x)" using si pp(4) by (simp add: slot_inv_def)
  show ?thesis
  proof (cases "pq_len pq' = 0")
    case True
    let ?q' = "\<lparr> slots = rest, pqueues = AList.delete s (pqueues q) \<rparr>"
    have 1: "rr_pop b fs q = (Inr (Some x), ?q', fs)"
      using sl pq pp(1) True by (simp add: rr_pop_def)
    have 2: "rr_wf e ?q'" using wf sl by (rule rr_wf_delete)
    have 3: "Suc (rr_len ?q') = rr_len q"
      using sum_delete[OF dist pq, of pq_len] pp(3) True by (simp add: rr_len_def)
    have 5: "slots ?q' = rest @ [s] \<and> pqueues ?q' = AList.update s pq' (pqueues q) \<and> 0 < pq_len pq' \<or>
        slots ?q' = rest \<and> pqueues ?q' = AList.delete s (pqueues q)" by simp
    show ?thesis using that[OF 1 2 3 xs 5 pp(7)] .
  next
    case False
    let ?q' = "\<lparr> slots = rest @ [s], pqueues = AList.update s pq' (pqueues q) \<rparr>"
    have 1: "rr_pop b fs q = (Inr (Some x), ?q', fs)"
      using sl pq pp(1) False by (simp add: rr_pop_def)
    have k': "\<forall>p \<in> fst ` set (queues pq'). snd p = slot_as_path e s"
      using si pp(6) unfolding slot_inv_def by blast
    have e': "\<forall>r \<in> pq_entries pq'. scheduler_slot e r = (Inr s, r)"
      using si pp(5) unfolding slot_inv_def by blast
    have si': "slot_inv e s pq'"
      unfolding slot_inv_def using pp(2) k' e' by simp
    have all: "\<forall>(s', pq'') \<in> set (AList.update s pq' (pqueues q)). slot_inv e s' pq''"
      using set_update_subset[of s pq' "pqueues q"] wf si' by (auto simp: rr_wf_def)
    have 2: "rr_wf e ?q'"
      using wf srest keys all by (auto simp: rr_wf_def distinct_update keys_update)
    have 3: "Suc (rr_len ?q') = rr_len q"
      using sum_update[OF dist, of pq_len s pq'] pq pp(3) by (simp add: rr_len_def)
    have 5: "slots ?q' = rest @ [s] \<and> pqueues ?q' = AList.update s pq' (pqueues q) \<and> 0 < pq_len pq' \<or>
        slots ?q' = rest \<and> pqueues ?q' = AList.delete s (pqueues q)" using False by simp
    show ?thesis using that[OF 1 2 3 xs 5 pp(7)] .
  qed
qed

lemma run_inv_initial: "run_inv e b initial"
  using rr_wf_empty[of e] by (simp add: run_inv_def initial_def no_files_def rr_len_def rr_empty_def)

lemma exec_push_inv:
  assumes "run_inv e b st"
  shows "run_inv e b (exec_op e b st (Push r p))"
proof (cases "fst (scheduler_slot e r)")
  case (Inl err)
  from rr_push_error[OF Inl] assms show ?thesis by (simp add: run_inv_def)
next
  case (Inr s)
  then obtain r' where ss: "scheduler_slot e r = (Inr s, r')" by (cases "scheduler_slot e r") auto
  from assms have wf: "rr_wf e (queue st)" and nf: "no_files b (disk st)"
    by (simp_all add: run_inv_def)
  obtain err q' where rp: "rr_push e b (disk st) (queue st) r p = (err, q')"
    by (cases "rr_push e b (disk st) (queue st) r p")
  from rr_push_fst[OF ss, of b "disk st" "queue st" p] rp
  have err: "err = (if storable b r' then None else Some StorageIOKind)" by simp
  from rr_push_wf[OF wf nf, of r p] rp have wf': "rr_wf e q'" by simp
  from rr_push_len[OF wf nf ss, of p] rp
  have len: "rr_len q' = rr_len (queue st) + (if storable b r' then 1 else 0)" by simp
  show ?thesis using assms wf' len err rp by (simp add: run_inv_def)
qed

lemma exec_pop_inv:
  assumes "run_inv e b st"
  shows "run_inv e b (exec_op e b st Pop)"
proof (cases "slots (queue st)")
  case Nil
  from rr_pop_empty[OF Nil] assms show ?thesis by (simp add: run_inv_def)
next
  case (Cons s rest)
  from assms have wf: "rr_wf e (queue st)" and nf: "no_files b (disk st)"
    by (simp_all add: run_inv_def)
  from rr_wf_head[OF wf Cons] obtain pq where pq: "map_of (pqueues (queue st)) s = Some pq"
    by blast
  show ?thesis
  proof (cases "pq_len pq = 0")
    case True
    from rr_pop_drained(1)[OF wf Cons pq True, of b "disk st"]
      rr_pop_drained(2)[OF wf Cons pq True] rr_wf_delete[OF wf Cons] assms
    show ?thesis by (simp add: run_inv_def)
  next
    case False
    then have "0 < pq_len pq" by simp
    from rr_pop_nonempty[OF wf nf Cons pq this] obtain x q' where
      "rr_pop b (disk st) (queue st) = (Inr (Some x), q', disk st)" "rr_wf e q'"
      "Suc (rr_len q') = rr_len (queue st)"
      by blast
    then show ?thesis using assms by (simp add: run_inv_def)
  qed
qed

lemma run_snoc: "run e b (ops @ [x]) = exec_op e b (run e b ops) x"
  by (simp add: run_def)

lemma run_inv_run: "Close \<notin> set ops \<Longrightarrow> run_inv e b (run e b ops)"
proof (induction ops rule: rev_induct)
  case Nil
  show ?case by (simp add: run_def run_inv_initial)
next
  case (snoc x ops)
  then have ih: "run_inv e b (run e b ops)" by simp
  from snoc.prems have "x \<noteq> Close" by auto
  then show ?case
    using exec_push_inv[OF ih] exec_pop_inv[OF ih]
    by (cases x) (simp_all add: run_snoc del: exec_op.simps)
qed

lemma rr_close_len: "rr_len (fst (snd (rr_close b fs q))) = 0"
  by (simp add: rr_close_eq rr_len_def rr_empty_def)

lemma filter_nonempty_all:
  "list_all (\<lambda>(p, q). q \<noteq> []) qs \<Longrightarrow> filter (\<lambda>(p, q). q \<noteq> []) qs = qs"
  by (induction qs) auto

lemma exec_push_disk: "disk (exec_op e b st (Push r p)) = disk st"
  by (cases "rr_push e b (disk st) (queue st) r p") (auto split: option.splits)

lemma exec_push_queue:
  "queue (exec_op e b st (Push r p)) = snd (rr_push e b (disk st) (queue st) r p)"
  by (cases "rr_push e b (disk st) (queue st) r p") (auto split: option.splits)

lemmas eval_defs = run_def initial_def rr_push_def scheduler_slot_def meta_get_def SCHEDULER_SLOT_META_KEY_def
    rr_empty_def pq_init_def min_or_none_def pq_push_def slot_as_path_def Let_def qfactory_def iq_push_def rr_pop_def pq_pop_def iq_pop_def iq_close_def pq_len_def
    rr_len_def rr_close_def pq_close_def

lemmas ex_defs = ex_env_def ex_backend_def ex_request_def ex_slotted_def ex_slots_def

lemma ex_slots_no_close: "Close \<notin> set ex_slots"
  by (simp add: ex_slots_def)

section \<open>Size\<close>

text \<open>
  Claim C8, amended. For every sequence of calls of \<^verbatim>\<open>push\<close> and \<^verbatim>\<open>pop\<close> on a queue
  that starts empty (and with no files left over), \<^verbatim>\<open>len\<close> equals the number of
  pushes that returned minus the number of pops that returned a request, and is the sum
  of the sizes of the priority queues in \<^verbatim>\<open>pqueues\<close>. A call of
  \<^verbatim>\<open>close\<close> empties the queue object: \<^verbatim>\<open>len\<close> is 0 after it, whatever was pending.
\<close>

theorem C8_size:
  assumes "Close \<notin> set ops"
  shows "rr_len (queue (run e b ops)) = pushed (run e b ops) - popped (run e b ops)
       \<and> popped (run e b ops) \<le> pushed (run e b ops)
       \<and> rr_len (queue (run e b ops))
           = sum_list (map (\<lambda>(slot, pq). pq_len pq) (pqueues (queue (run e b ops))))
       \<and> rr_len (queue (run e b (ops @ [Close]))) = 0"
proof -
  have "run_inv e b (run e b ops)" using assms by (rule run_inv_run)
  then have 1: "rr_len (queue (run e b ops)) + popped (run e b ops) = pushed (run e b ops)"
    by (simp add: run_inv_def)
  have 2: "rr_len (queue (run e b ops))
      = sum_list (map (\<lambda>(slot, pq). pq_len pq) (pqueues (queue (run e b ops))))"
    by (simp add: rr_len_def)
  have 3: "rr_len (queue (run e b (ops @ [Close]))) = 0"
    using rr_close_len[of b "disk (run e b ops)" "queue (run e b ops)"]
    by (auto simp: run_snoc split: prod.splits)
  from 1 2 3 show ?thesis by linarith
qed

text \<open>
  The eight pushes of the scheduler test followed by three pops: 8 pushed, 3 popped,
  5 pending.
\<close>

theorem C8_witness:
  "rr_len (queue (run ex_env ex_backend (ex_slots @ [Pop, Pop, Pop]))) = 5 \<and>
   pushed (run ex_env ex_backend (ex_slots @ [Pop, Pop, Pop])) = 8 \<and>
   popped (run ex_env ex_backend (ex_slots @ [Pop, Pop, Pop])) = 3"
proof -
  have h: "Close \<notin> set (ex_slots @ [Pop, Pop, Pop])" by (simp add: ex_slots_def)
  have c: "pushed (run ex_env ex_backend (ex_slots @ [Pop, Pop, Pop])) = 8"
    "popped (run ex_env ex_backend (ex_slots @ [Pop, Pop, Pop])) = 3"
    by (simp_all add: eval_defs ex_defs)
  from C8_size[OF h, of ex_env ex_backend] show ?thesis unfolding c by simp
qed

text \<open>
  Claim C8 as stated includes \<^verbatim>\<open>close\<close> among the calls. After one push and a close,
  \<^verbatim>\<open>len\<close> is 0, while one request was pushed and none popped.
\<close>

theorem C8_counterexample:
  "rr_len (queue (run ex_env ex_backend [Push (ex_request ''a'') 0, Close])) \<noteq>
     pushed (run ex_env ex_backend [Push (ex_request ''a'') 0, Close])
       - popped (run ex_env ex_backend [Push (ex_request ''a'') 0, Close])"
  by (simp add: eval_defs ex_defs)

section \<open>The rotation\<close>

lemma length_update_mem: "k \<in> fst ` set qs \<Longrightarrow> length (AList.update k v qs) = length qs"
  by (induction qs) auto

lemma length_delete_mem:
  "distinct (map fst qs) \<Longrightarrow> k \<in> fst ` set qs \<Longrightarrow> Suc (length (AList.delete k qs)) = length qs"
  by (induction qs) (auto simp: rev_image_eqI)

lemma rr_inv_pop:
  assumes inv: "rr_inv e q" and nf: "no_files b fs" and sl: "slots q = s # rest"
  obtains x q' where "rr_pop b fs q = (Inr (Some x), q', fs)" "rr_inv e q'"
    "scheduler_slot e x = (Inr s, x)"
    "slots q' = rest @ [s] \<and> length (pqueues q') = length (pqueues q) \<or>
     slots q' = rest \<and> Suc (length (pqueues q')) = length (pqueues q)"
proof -
  from inv have wf: "rr_wf e q" and pos: "\<forall>(s, pq) \<in> set (pqueues q). 0 < pq_len pq"
    by (simp_all add: rr_inv_def)
  from rr_wf_head[OF wf sl] obtain pq where pq: "map_of (pqueues q) s = Some pq" by blast
  from map_of_SomeD[OF pq] pos have ne: "0 < pq_len pq" by auto
  from map_of_SomeD[OF pq] have sin: "s \<in> fst ` set (pqueues q)" by force
  from wf have dist: "distinct (map fst (pqueues q))" by (simp add: rr_wf_def)
  from rr_pop_nonempty[OF wf nf sl pq ne] obtain x q' pq' where
    p: "rr_pop b fs q = (Inr (Some x), q', fs)" "rr_wf e q'" "scheduler_slot e x = (Inr s, x)"
    "slots q' = rest @ [s] \<and> pqueues q' = AList.update s pq' (pqueues q) \<and> 0 < pq_len pq' \<or>
     slots q' = rest \<and> pqueues q' = AList.delete s (pqueues q)"
    by blast
  from p(4) have pos': "\<forall>(s, pq) \<in> set (pqueues q'). 0 < pq_len pq"
    using set_update_subset[of s pq' "pqueues q"] set_delete_subset[of s "pqueues q"] pos
    by auto
  from p(4) have 4: "slots q' = rest @ [s] \<and> length (pqueues q') = length (pqueues q) \<or>
     slots q' = rest \<and> Suc (length (pqueues q')) = length (pqueues q)"
    using length_update_mem[OF sin, of pq'] length_delete_mem[OF dist sin] by auto
  from p(2) pos' have "rr_inv e q'" by (simp add: rr_inv_def)
  with p(1,3) 4 that show ?thesis by blast
qed

lemma stored_runs_rr_inv:
  assumes "Close \<notin> set ops"
    and "\<forall>r p. Push r p \<in> set ops \<longrightarrow> storable b (snd (scheduler_slot e r))"
  shows "rr_inv e (queue (run e b ops))"
  using assms
proof (induction ops rule: rev_induct)
  case Nil
  show ?case using rr_wf_empty[of e] by (simp add: run_def initial_def rr_inv_def rr_empty_def)
next
  case (snoc x ops)
  let ?st = "run e b ops"
  from snoc have ih: "rr_inv e (queue ?st)" by auto
  from snoc.prems(1) have "Close \<notin> set ops" by simp
  from run_inv_run[OF this] have nf: "no_files b (disk ?st)" by (simp add: run_inv_def)
  show ?case
  proof (cases x)
    case (Push r p)
    show ?thesis
    proof (cases "fst (scheduler_slot e r)")
      case (Inl err)
      from rr_push_error[OF Inl] ih show ?thesis
        unfolding run_snoc Push exec_push_queue by simp
    next
      case (Inr s)
      then obtain r' where ss: "scheduler_slot e r = (Inr s, r')"
        by (cases "scheduler_slot e r") auto
      from snoc.prems(2) Push ss have st: "storable b r'" by auto
      from rr_push_inv[OF ih nf ss st] show ?thesis
        unfolding run_snoc Push exec_push_queue .
    qed
  next
    case Pop
    show ?thesis
    proof (cases "slots (queue ?st)")
      case Nil
      from rr_pop_empty[OF Nil] ih show ?thesis by (simp add: run_snoc Pop)
    next
      case (Cons s rest)
      from rr_inv_pop[OF ih nf Cons] obtain y q' where
        "rr_pop b (disk ?st) (queue ?st) = (Inr (Some y), q', disk ?st)" "rr_inv e q'"
        by blast
      then show ?thesis by (simp add: run_snoc Pop)
    qed
  next
    case Close
    with snoc.prems(1) show ?thesis by simp
  qed
qed

text \<open>
  Claim C3 has a slot in the rotation exactly when its priority queue exists and holds an
  entry, in every state reached by calls of \<^verbatim>\<open>push\<close> and \<^verbatim>\<open>pop\<close>. \<^verbatim>\<open>push\<close> enters
  a new slot into \<^verbatim>\<open>pqueues\<close> and the rotation (lines 87-88) before it hands the
  request to the priority queue (line 89). When the internal queue refuses the request -
  a disk queue raises on a request it cannot serialise - the exception leaves
  \<^verbatim>\<open>push\<close> with the slot registered and its priority queue without entries. Below, on
  a backend that refuses one request: after the refused push into the empty queue, slot
  \<open>a\<close> is in the rotation and in \<^verbatim>\<open>pqueues\<close>, its priority queue holds one internal
  queue and no entry, and no push has returned; after a second push, of a request of slot
  \<open>b\<close>, \<^verbatim>\<open>len\<close> is 1 and \<^verbatim>\<open>pop\<close> returns \<^verbatim>\<open>None\<close>, as slot \<open>a\<close> is served first.
  (As long as no push is refused, every slot of the rotation holds an entry:
  \<open>stored_runs_rr_inv\<close>.)
\<close>

theorem C3_failed_push:
  "slots (queue (run ex_env ex_picky_backend [Push (ex_slotted ''unserialisable'' ''a'') 0])) = [''a'']
   \<and> pqueues (queue (run ex_env ex_picky_backend [Push (ex_slotted ''unserialisable'' ''a'') 0]))
       = [(''a'', \<lparr> queues = [((0, ''a-a''), [])], curprio = None \<rparr>)]
   \<and> pushed (run ex_env ex_picky_backend [Push (ex_slotted ''unserialisable'' ''a'') 0]) = 0
   \<and> rr_len (queue (run ex_env ex_picky_backend
         [Push (ex_slotted ''unserialisable'' ''a'') 0, Push (ex_slotted ''b'' ''b'') 0])) = 1
   \<and> fst (rr_pop ex_picky_backend
         (disk (run ex_env ex_picky_backend
            [Push (ex_slotted ''unserialisable'' ''a'') 0, Push (ex_slotted ''b'' ''b'') 0]))
         (queue (run ex_env ex_picky_backend
            [Push (ex_slotted ''unserialisable'' ''a'') 0, Push (ex_slotted ''b'' ''b'') 0])))
       = Inr None"
  by (simp add: eval_defs ex_env_def ex_picky_backend_def ex_slotted_def)








section \<open>Close and reopen\<close>

lemma fold_update_fresh:
  assumes "distinct (map fst xs)" "fst ` set xs \<inter> fst ` set acc = {}"
  shows "fold (\<lambda>(k, v) acc. AList.update k (g k v) acc) xs acc = acc @ map (\<lambda>(k, v). (k, g k v)) xs"
  using assms
proof (induction xs arbitrary: acc)
  case Nil
  then show ?case by simp
next
  case (Cons a xs)
  obtain k v where a: "a = (k, v)" by (cases a)
  from Cons.prems a have k: "k \<notin> fst ` set acc" by auto
  have "fst ` set xs \<inter> fst ` set (acc @ [(k, g k v)]) = {}"
    using Cons.prems a by auto
  with Cons.IH[of "acc @ [(k, g k v)]"] Cons.prems(1) show ?case
    by (simp add: a update_fresh[OF k])
qed

lemma map_fst_update:
  "map fst (AList.update k v qs) = (if k \<in> fst ` set qs then map fst qs else map fst qs @ [k])"
  by (induction qs) auto

lemma pq_pop_files_indep:
  "fst (pq_pop b fs pq) = fst (pq_pop b fs' pq) \<and>
   fst (snd (pq_pop b fs pq)) = fst (snd (pq_pop b fs' pq))"
  by (simp add: pq_pop_def Let_def split: option.splits prod.splits)

lemma rr_pop_files_indep:
  "fst (rr_pop b fs q) = fst (rr_pop b fs' q) \<and>
   fst (snd (rr_pop b fs q)) = fst (snd (rr_pop b fs' q))"
proof (cases "slots q")
  case Nil
  then show ?thesis by (simp add: rr_pop_def)
next
  case (Cons s rest)
  show ?thesis
  proof (cases "map_of (pqueues q) s")
    case None
    with Cons show ?thesis by (simp add: rr_pop_def)
  next
    case (Some pq)
    obtain r1 pq1 f1 where 1: "pq_pop b fs pq = (r1, pq1, f1)" by (cases "pq_pop b fs pq")
    obtain r2 pq2 f2 where 2: "pq_pop b fs' pq = (r2, pq2, f2)" by (cases "pq_pop b fs' pq")
    from pq_pop_files_indep[of b fs pq fs'] 1 2 have "r1 = r2" "pq1 = pq2" by simp_all
    with Cons Some 1 2 show ?thesis
      by (cases r2) (simp_all add: rr_pop_def)
  qed
qed

lemma rr_pops_files_indep:
  "fst (rr_pops b n fs q) = fst (rr_pops b n fs' q)"
proof (induction n arbitrary: fs fs' q)
  case 0
  show ?case by simp
next
  case (Suc n)
  obtain r1 q1 f1 where 1: "rr_pop b fs q = (r1, q1, f1)" by (cases "rr_pop b fs q")
  obtain r2 q2 f2 where 2: "rr_pop b fs' q = (r2, q2, f2)" by (cases "rr_pop b fs' q")
  from rr_pop_files_indep[of b fs q fs'] 1 2 have e: "r1 = r2" "q1 = q2" by simp_all
  from Suc.IH[of f1 q2 f2] show ?case
    by (auto simp add: 1 2 e split: prod.splits)
qed

lemma fold_update_keys:
  assumes "distinct ps" "set ps \<inter> fst ` set acc = {}"
  shows "fold (\<lambda>p qs. AList.update p (f p) qs) ps acc = acc @ map (\<lambda>p. (p, f p)) ps"
  using assms
proof (induction ps arbitrary: acc)
  case Nil
  then show ?case by simp
next
  case (Cons p ps)
  from Cons.prems have k: "p \<notin> fst ` set acc" by auto
  have "set ps \<inter> fst ` set (acc @ [(p, f p)]) = {}" using Cons.prems by auto
  with Cons.IH[of "acc @ [(p, f p)]"] Cons.prems(1) show ?case
    by (simp add: update_fresh[OF k])
qed

lemma rr_init_fold:
  assumes "distinct (map fst items)" "fst ` set items \<inter> fst ` set (pqueues q0) = {}"
  shows "fold (\<lambda>(slot, prios) q.
                 \<lparr> slots = slots q @ [slot],
                   pqueues = AList.update slot (pq_init b fs prios) (pqueues q) \<rparr>) items q0
         = \<lparr> slots = slots q0 @ map fst items,
             pqueues = pqueues q0 @ map (\<lambda>(slot, prios). (slot, pq_init b fs prios)) items \<rparr>"
  using assms
proof (induction items arbitrary: q0)
  case Nil
  then show ?case by simp
next
  case (Cons a items)
  obtain slot prios where a: "a = (slot, prios)" by (cases a)
  from Cons.prems a have k: "slot \<notin> fst ` set (pqueues q0)" by auto
  let ?q1 = "\<lparr> slots = slots q0 @ [slot],
               pqueues = pqueues q0 @ [(slot, pq_init b fs prios)] \<rparr>"
  have "fst ` set items \<inter> fst ` set (pqueues ?q1) = {}" using Cons.prems a by auto
  with Cons.IH[of ?q1] Cons.prems(1) show ?case
    by (simp add: a update_fresh[OF k])
qed

lemma rr_close_snapshot:
  assumes "distinct (map fst (pqueues q))"
  shows "fst (rr_close b fs q) = map (\<lambda>(slot, pq). (slot, fst (pq_close b fs pq))) (pqueues q)"
  using fold_update_fresh[OF assms, of "[]" "\<lambda>slot pq. fst (pq_close b fs pq)"]
  by (simp add: rr_close_eq)

lemma rr_close_files:
  "snd (snd (rr_close b fs q)) = fold (\<lambda>(p, q) fs. iq_close b fs p q) (all_queues q) fs"
proof -
  have "\<And>fs. fold (\<lambda>(slot, queue) fs'. snd (pq_close b fs' queue)) pqs fs =
      fold (\<lambda>(p, q) fs. iq_close b fs p q) (concat (map (\<lambda>(slot, pq). queues pq) pqs)) fs" for pqs
    by (induction pqs) (auto simp: pq_close_def)
  then show ?thesis by (simp add: rr_close_eq all_queues_def)
qed

lemma fold_close_other:
  "p \<notin> fst ` set kvs \<Longrightarrow> fold (\<lambda>(p, q) fs. iq_close b fs p q) kvs fs p = fs p"
proof (induction kvs arbitrary: fs)
  case Nil
  show ?case by simp
next
  case (Cons a kvs)
  obtain k v where a: "a = (k, v)" by (cases a)
  from Cons.prems a have "p \<noteq> k" "p \<notin> fst ` set kvs" by auto
  then have "iq_close b fs k v p = fs p" by (simp add: iq_close_def)
  with Cons.IH[OF \<open>p \<notin> fst ` set kvs\<close>, of "iq_close b fs k v"] show ?case by (simp add: a)
qed

lemma fold_close_lookup:
  assumes "durable b"
  shows "distinct (map fst kvs) \<Longrightarrow> (p, q) \<in> set kvs \<Longrightarrow>
         fold (\<lambda>(p, q) fs. iq_close b fs p q) kvs fs p = q"
proof (induction kvs arbitrary: fs)
  case Nil
  then show ?case by simp
next
  case (Cons a kvs)
  obtain k v where a: "a = (k, v)" by (cases a)
  show ?case
  proof (cases "a = (p, q)")
    case True
    with Cons.prems(1) have "p \<notin> fst ` set kvs" by auto
    then have "fold (\<lambda>(p, q) fs. iq_close b fs p q) kvs (iq_close b fs p q) p
        = iq_close b fs p q p" by (rule fold_close_other)
    also have "\<dots> = q" using assms by (simp add: iq_close_def)
    finally show ?thesis using True by simp
  next
    case False
    with Cons.prems have "(p, q) \<in> set kvs" "distinct (map fst kvs)" by auto
    from Cons.IH[OF this(2,1), of "iq_close b fs k v"] show ?thesis by (simp add: a)
  qed
qed

lemma distinct_keys_concat:
  assumes "\<forall>x \<in> set xs. distinct (map fst (g x))"
    "\<forall>x \<in> set xs. \<forall>k \<in> fst ` set (g x). tag k = h x"
    "distinct (map h xs)"
  shows "distinct (map fst (concat (map g xs)))"
  using assms
proof (induction xs)
  case Nil
  then show ?case by simp
next
  case (Cons a xs)
  have "fst ` set (g a) \<inter> fst ` set (concat (map g xs)) = {}"
  proof (rule ccontr)
    assume "fst ` set (g a) \<inter> fst ` set (concat (map g xs)) \<noteq> {}"
    then obtain k x where k: "k \<in> fst ` set (g a)" "x \<in> set xs" "k \<in> fst ` set (g x)"
      by auto
    with Cons.prems(2) have "h a = h x" by (metis list.set_intros(1,2))
    with Cons.prems(3) k(2) show False by auto
  qed
  with Cons show ?case by auto
qed

lemma pushes_no_close: "Close \<notin> set (map (\<lambda>(r, p). Push r p) ps)"
  by (induction ps) auto

lemma pushes_disk: "disk (run e b (map (\<lambda>(r, p). Push r p) ps)) = (\<lambda>p. [])"
proof (induction ps rule: rev_induct)
  case Nil
  show ?case by (simp add: run_def initial_def)
next
  case (snoc x ps)
  obtain r p where x: "x = (r, p)" by (cases x)
  show ?case using snoc exec_push_disk[of e b "run e b (map (\<lambda>(r, p). Push r p) ps)" r p]
    by (simp add: run_snoc x del: exec_op.simps)
qed

lemma pushes_slots:
  "slots (queue (run e b (map (\<lambda>(r, p). Push r p) ps))) =
   map fst (pqueues (queue (run e b (map (\<lambda>(r, p). Push r p) ps))))"
proof (induction ps rule: rev_induct)
  case Nil
  show ?case by (simp add: run_def initial_def rr_empty_def)
next
  case (snoc x ps)
  obtain r p where x: "x = (r, p)" by (cases x)
  let ?st = "run e b (map (\<lambda>(r, p). Push r p) ps)"
  show ?case
  proof (cases "fst (scheduler_slot e r)")
    case (Inl err)
    from rr_push_error[OF Inl] snoc show ?thesis by (simp add: run_snoc x)
  next
    case (Inr s)
    then obtain r' where ss: "scheduler_slot e r = (Inr s, r')"
      by (cases "scheduler_slot e r") auto
    from snoc show ?thesis
      by (simp add: run_snoc x rr_push_resolved[OF ss] map_fst_update split: option.splits)
  qed
qed

lemma pq_full_nil: "pq_full pq_nil"
  by (simp add: pq_full_def pq_nil_def)

lemma pushes_full:
  assumes "\<forall>(r, p) \<in> set ps. storable b (snd (scheduler_slot e r))"
  shows "\<forall>(s, pq) \<in> set (pqueues (queue (run e b (map (\<lambda>(r, p). Push r p) ps)))). pq_full pq"
  using assms
proof (induction ps rule: rev_induct)
  case Nil
  show ?case by (simp add: run_def initial_def rr_empty_def)
next
  case (snoc x ps)
  obtain r p where x: "x = (r, p)" by (cases x)
  let ?st = "run e b (map (\<lambda>(r, p). Push r p) ps)"
  from snoc have ih: "\<forall>(s, pq) \<in> set (pqueues (queue ?st)). pq_full pq" by auto
  show ?case
  proof (cases "fst (scheduler_slot e r)")
    case (Inl err)
    from rr_push_error[OF Inl] ih show ?thesis by (simp add: run_snoc x)
  next
    case (Inr s)
    then obtain r' where ss: "scheduler_slot e r = (Inr s, r')"
      by (cases "scheduler_slot e r") auto
    from snoc.prems x ss have st: "storable b r'" by simp
    let ?pq0 = "case map_of (pqueues (queue ?st)) s of None \<Rightarrow> pq_nil | Some pq \<Rightarrow> pq"
    have "pq_full ?pq0"
      using ih pq_full_nil by (auto split: option.splits dest!: map_of_SomeD)
    from pq_push_full[OF this st]
    have f: "pq_full (snd (pq_push b (disk ?st) ?pq0 r' (p, slot_as_path e s)))" .
    have "pqueues (queue (exec_op e b ?st (Push r p))) =
        AList.update s (snd (pq_push b (disk ?st) ?pq0 r' (p, slot_as_path e s))) (pqueues (queue ?st))"
      by (simp add: rr_push_resolved[OF ss] split: option.splits)
    then have "set (pqueues (queue (exec_op e b ?st (Push r p)))) \<subseteq>
        insert (s, snd (pq_push b (disk ?st) ?pq0 r' (p, slot_as_path e s))) (set (pqueues (queue ?st)))"
      by (simp only: set_update_subset)
    with f ih show ?thesis by (auto simp add: run_snoc x simp del: exec_op.simps)
  qed
qed

lemma pq_close_fst: "fst (pq_close b fs pq) = active (queues pq)"
  by (simp add: pq_close_def active_def)

lemma pq_init_active:
  assumes inv: "pq_inv pq" and du: "durable b" and fs: "\<forall>(p, q) \<in> set (queues pq). fs p = q"
  shows "pq_init b fs (active (queues pq)) = drop_empty_pq pq"
proof -
  let ?ne = "filter (\<lambda>(p, q). q \<noteq> []) (queues pq)"
  from inv have "distinct (map fst (queues pq))" by (simp add: pq_inv_def)
  then have d: "distinct (active (queues pq))"
    unfolding active_def by (rule distinct_map_filter)
  have "fold (\<lambda>p qs. AList.update p (qfactory b fs p) qs) (active (queues pq)) []
      = map (\<lambda>p. (p, qfactory b fs p)) (active (queues pq))"
    using fold_update_keys[OF d, of "[]" "qfactory b fs"] by simp
  also have "\<dots> = map (\<lambda>kv. kv) ?ne"
    unfolding active_def map_map using fs du by (intro map_cong) (auto simp: qfactory_def)
  finally have "queues (pq_init b fs (active (queues pq))) = ?ne"
    by (simp add: pq_init_def)
  moreover have "curprio (pq_init b fs (active (queues pq))) = curprio pq"
    using inv by (simp add: pq_init_def pq_inv_def)
  ultimately show ?thesis by (cases pq) (simp add: pq_init_def drop_empty_pq_def)
qed

lemma drop_empty_pq_full: "pq_full pq \<Longrightarrow> drop_empty_pq pq = pq"
  by (simp add: drop_empty_pq_def pq_full_def filter_nonempty_all)

lemma drop_empty_full:
  assumes "\<forall>(s, pq) \<in> set (pqueues q). pq_full pq"
  shows "drop_empty q = q"
proof -
  have "map (\<lambda>(s, pq). (s, drop_empty_pq pq)) (pqueues q) = map (\<lambda>x. x) (pqueues q)"
    using assms by (intro map_cong) (auto simp: drop_empty_pq_full)
  then show ?thesis by (simp add: drop_empty_def)
qed

lemma map_of_filter_first:
  "map_of qs c = Some q \<Longrightarrow> P (c, q) \<Longrightarrow> map_of (filter P qs) c = Some q"
  by (induction qs) (auto split: if_splits)

lemma filter_update_kept:
  "map_of qs c = Some q \<Longrightarrow> P (c, q) \<Longrightarrow> P (c, q') \<Longrightarrow>
   filter P (AList.update c q' qs) = AList.update c q' (filter P qs)"
  by (induction qs) (auto split: if_splits)

lemma filter_delete: "filter P (AList.delete c qs) = AList.delete c (filter P qs)"
  by (induction qs) auto

lemma active_drop: "active (filter (\<lambda>(p, q). q \<noteq> []) qs) = active qs"
  by (simp add: active_def)

lemma drop_empty_pq_len: "pq_len (drop_empty_pq pq) = pq_len pq"
proof -
  have "sum_list (map (\<lambda>(p, q). length q) (filter (\<lambda>(p, q). q \<noteq> []) qs))
      = sum_list (map (\<lambda>(p, q). length q) qs)" for qs :: "(prio \<times> request list) list"
    by (induction qs) auto
  then show ?thesis by (simp add: pq_len_def drop_empty_pq_def)
qed

lemma drop_empty_pq_pop:
  assumes inv: "pq_inv pq"
  shows "fst (pq_pop b fs (drop_empty_pq pq)) = fst (pq_pop b fs pq) \<and>
         fst (snd (pq_pop b fs (drop_empty_pq pq))) = drop_empty_pq (fst (snd (pq_pop b fs pq)))"
proof (cases "curprio pq")
  case None
  then show ?thesis by (simp add: pq_pop_def drop_empty_pq_def)
next
  case (Some c)
  let ?ne = "\<lambda>(p, q). q \<noteq> ([] :: request list)"
  from inv Some have "c \<in> set (active (queues pq))"
    by (simp add: pq_inv_def min_or_none_mem)
  from active_mem[OF this] obtain q where q: "(c, q) \<in> set (queues pq)" "q \<noteq> []" by blast
  from inv have "distinct (map fst (queues pq))" by (simp add: pq_inv_def)
  with q(1) have m: "map_of (queues pq) c = Some q" by simp
  from map_of_filter_first[OF m, of ?ne] q(2)
  have m': "map_of (filter ?ne (queues pq)) c = Some q" by simp
  obtain x q' where p: "iq_pop b q = (x, q')" by (cases "iq_pop b q")
  show ?thesis
  proof (cases "q' = []")
    case True
    then show ?thesis
      using Some m m' p
      by (simp add: pq_pop_def drop_empty_pq_def filter_delete active_alt active_drop)
  next
    case False
    from filter_update_kept[OF m, of ?ne q'] q(2) False
    have "filter ?ne (AList.update c q' (queues pq)) = AList.update c q' (filter ?ne (queues pq))"
      by simp
    with False show ?thesis
      using Some m m' p by (simp add: pq_pop_def drop_empty_pq_def)
  qed
qed

lemma map_of_map_snd:
  "map_of (map (\<lambda>(k, v). (k, f v)) qs) k = map_option f (map_of qs k)"
  by (induction qs) auto

lemma map_update_snd:
  "map (\<lambda>(k, v). (k, f v)) (AList.update k v qs) = AList.update k (f v) (map (\<lambda>(k, v). (k, f v)) qs)"
  by (induction qs) auto

lemma map_delete_snd:
  "map (\<lambda>(k, v). (k, f v)) (AList.delete k qs) = AList.delete k (map (\<lambda>(k, v). (k, f v)) qs)"
  by (induction qs) auto

lemma drop_empty_pop:
  assumes wf: "rr_wf e q"
  shows "fst (rr_pop b fs (drop_empty q)) = fst (rr_pop b fs q) \<and>
         fst (snd (rr_pop b fs (drop_empty q))) = drop_empty (fst (snd (rr_pop b fs q)))"
proof (cases "slots q")
  case Nil
  then show ?thesis by (simp add: rr_pop_def drop_empty_def)
next
  case (Cons s rest)
  show ?thesis
  proof (cases "map_of (pqueues q) s")
    case None
    with Cons show ?thesis by (simp add: rr_pop_def drop_empty_def map_of_map_snd)
  next
    case (Some pq)
    from slot_inv_lookup[OF wf Some] have inv: "pq_inv pq" by (simp add: slot_inv_def)
    obtain r pq1 f1 where 1: "pq_pop b fs pq = (r, pq1, f1)" by (cases "pq_pop b fs pq")
    obtain r2 pq2 f2 where 2: "pq_pop b fs (drop_empty_pq pq) = (r2, pq2, f2)"
      by (cases "pq_pop b fs (drop_empty_pq pq)")
    from drop_empty_pq_pop[OF inv, of b fs] 1 2 have e: "r2 = r" "pq2 = drop_empty_pq pq1"
      by simp_all
    show ?thesis
    proof (cases r)
      case (Inl err)
      with Cons Some 1 2 e show ?thesis
        by (simp add: rr_pop_def drop_empty_def map_of_map_snd map_update_snd)
    next
      case (Inr x)
      with Cons Some 1 2 e show ?thesis
        by (simp add: rr_pop_def drop_empty_def map_of_map_snd map_update_snd map_delete_snd
            drop_empty_pq_len)
    qed
  qed
qed

lemma rr_pop_wf:
  assumes "rr_wf e q" "no_files b fs"
  shows "rr_wf e (fst (snd (rr_pop b fs q))) \<and> no_files b (snd (snd (rr_pop b fs q)))"
proof -
  let ?st = "\<lparr> queue = q, disk = fs, pushed = rr_len q, popped = 0 \<rparr>"
  have "run_inv e b ?st" using assms by (simp add: run_inv_def)
  then have "run_inv e b (exec_op e b ?st Pop)" by (rule exec_pop_inv)
  then show ?thesis
    by (cases "rr_pop b fs q") (auto simp: run_inv_def split: sum.splits option.splits)
qed

lemma drop_empty_pops:
  "rr_wf e q \<Longrightarrow> no_files b fs \<Longrightarrow>
   fst (rr_pops b n fs (drop_empty q)) = fst (rr_pops b n fs q)"
proof (induction n arbitrary: q fs)
  case 0
  show ?case by simp
next
  case (Suc n)
  obtain r q1 f1 where 1: "rr_pop b fs q = (r, q1, f1)" by (cases "rr_pop b fs q")
  obtain r2 q2 f2 where 2: "rr_pop b fs (drop_empty q) = (r2, q2, f2)"
    by (cases "rr_pop b fs (drop_empty q)")
  from drop_empty_pop[OF Suc.prems(1), of b fs] 1 2 have e: "r2 = r" "q2 = drop_empty q1"
    by simp_all
  from rr_pop_wf[OF Suc.prems] 1 have wf: "rr_wf e q1" "no_files b f1" by simp_all
  have "fst (rr_pops b n f2 (drop_empty q1)) = fst (rr_pops b n f1 (drop_empty q1))"
    by (rule rr_pops_files_indep)
  also have "\<dots> = fst (rr_pops b n f1 q1)" using wf by (rule Suc.IH)
  finally show ?case by (auto simp add: 1 2 e split: prod.splits)
qed

text \<open>
  Claim C4. With the durable backend and slots whose paths differ, after any list of
  pushes into the empty queue: \<^verbatim>\<open>close\<close> followed by the construction of a new queue
  from the snapshot it returned raises nothing and gives the queue that was closed -
  less the internal queues without entries that refused pushes had left in it, so the
  very queue that was closed when every push was stored -, and any number of pops on the
  new queue returns what the same pops would have returned on the queue that was never
  closed: the same requests in the same order.
\<close>

theorem C4_roundtrip:
  assumes du: "durable b"
    and inj: "inj_on (slot_as_path e)
                (set (slots (queue (run e b (map (\<lambda>(r, p). Push r p) ps)))))"
  shows "let st = run e b (map (\<lambda>(r, p). Push r p) ps);
             (snapshot, closed, fs') = rr_close b (disk st) (queue st);
             (err, reopened) = rr_init b fs' (SnapDict snapshot)
         in err = None \<and> reopened = drop_empty (queue st) \<and>
            ((\<forall>(r, p) \<in> set ps. storable b (snd (scheduler_slot e r))) \<longrightarrow> reopened = queue st) \<and>
            (\<forall>n. fst (rr_pops b n fs' reopened) = fst (rr_pops b n (disk st) (queue st)))"
proof -
  define st where "st = run e b (map (\<lambda>(r, p). Push r p) ps)"
  define q where "q = queue st"
  define snapshot where "snapshot = fst (rr_close b (disk st) q)"
  define fs' where "fs' = snd (snd (rr_close b (disk st) q))"
  have ri: "run_inv e b st" unfolding st_def using pushes_no_close by (rule run_inv_run)
  then have inv: "rr_wf e q" and nf: "no_files b (disk st)" by (simp_all add: run_inv_def q_def)
  have sl: "slots q = map fst (pqueues q)" unfolding q_def st_def by (rule pushes_slots)
  from inv have d: "distinct (map fst (pqueues q))" by (simp add: rr_wf_def)
  have si: "\<And>slot pq. (slot, pq) \<in> set (pqueues q) \<Longrightarrow> slot_inv e slot pq"
    using inv by (auto simp: rr_wf_def)
  have snap: "snapshot = map (\<lambda>(slot, pq). (slot, active (queues pq))) (pqueues q)"
    unfolding snapshot_def rr_close_snapshot[OF d] by (simp add: pq_close_fst)
  have dk: "distinct (map fst (all_queues q))"
    unfolding all_queues_def
  proof (rule distinct_keys_concat[where tag = snd and h = "\<lambda>(slot, pq). slot_as_path e slot"])
    show "\<forall>x\<in>set (pqueues q). distinct (map fst (case x of (slot, pq) \<Rightarrow> queues pq))"
      using si by (auto simp: slot_inv_def pq_inv_def)
    show "\<forall>x\<in>set (pqueues q). \<forall>k\<in>fst ` set (case x of (slot, pq) \<Rightarrow> queues pq).
            snd k = (case x of (slot, pq) \<Rightarrow> slot_as_path e slot)"
      using si by (fastforce simp: slot_inv_def)
    have eq: "(\<lambda>(slot, pq). slot_as_path e slot) = (\<lambda>x. slot_as_path e (fst x))"
      by (rule ext) (simp add: case_prod_beta)
    have "distinct (map (slot_as_path e) (map fst (pqueues q)))"
      using d inj unfolding distinct_map[of "slot_as_path e"] q_def[symmetric] st_def[symmetric] sl
      by simp
    then show "distinct (map (\<lambda>(slot, pq). slot_as_path e slot) (pqueues q))"
      unfolding eq by (simp add: comp_def)
  qed
  have fs': "fs' = fold (\<lambda>(p, q) fs. iq_close b fs p q) (all_queues q) (disk st)"
    unfolding fs'_def by (rule rr_close_files)
  have look: "\<And>slot pq. (slot, pq) \<in> set (pqueues q) \<Longrightarrow> \<forall>(p, v) \<in> set (queues pq). fs' p = v"
  proof -
    fix slot pq assume m: "(slot, pq) \<in> set (pqueues q)"
    show "\<forall>(p, v) \<in> set (queues pq). fs' p = v"
    proof (clarify)
      fix p v assume "(p, v) \<in> set (queues pq)"
      with m have "(p, v) \<in> set (all_queues q)" by (force simp: all_queues_def)
      with fold_close_lookup[OF du dk] show "fs' p = v" unfolding fs' by blast
    qed
  qed
  have restore: "map (\<lambda>(slot, prios). (slot, pq_init b fs' prios)) snapshot
      = pqueues (drop_empty q)"
  proof -
    have "map (\<lambda>(slot, prios). (slot, pq_init b fs' prios)) snapshot
        = map (\<lambda>(slot, pq). (slot, pq_init b fs' (active (queues pq)))) (pqueues q)"
      by (simp add: snap comp_def case_prod_beta)
    also have "\<dots> = map (\<lambda>(slot, pq). (slot, drop_empty_pq pq)) (pqueues q)"
    proof (rule map_cong[OF refl])
      fix x assume x: "x \<in> set (pqueues q)"
      obtain slot pq where xe: "x = (slot, pq)" by (cases x)
      from si[of slot pq] x xe have "pq_inv pq" by (simp add: slot_inv_def)
      from pq_init_active[OF this du look[of slot pq]] x xe
      show "(case x of (slot, pq) \<Rightarrow> (slot, pq_init b fs' (active (queues pq))))
          = (case x of (slot, pq) \<Rightarrow> (slot, drop_empty_pq pq))"
        by simp
    qed
    finally show ?thesis by (simp add: drop_empty_def)
  qed
  have ds: "distinct (map fst snapshot)" using d by (simp add: snap comp_def case_prod_beta)
  have ms: "map fst snapshot = slots (drop_empty q)"
    by (simp add: snap sl comp_def case_prod_beta drop_empty_def)
  have init: "rr_init b fs' (SnapDict snapshot) = (None, drop_empty q)"
  proof (cases "snapshot = []")
    case True
    with snap sl have "drop_empty q = rr_empty"
      by (cases q) (simp add: rr_empty_def drop_empty_def)
    with True show ?thesis by (simp add: rr_init_def)
  next
    case False
    from rr_init_fold[OF ds, of rr_empty b fs'] restore ms
    have "fold (\<lambda>(slot, prios) q.
                 \<lparr> slots = slots q @ [slot],
                   pqueues = AList.update slot (pq_init b fs' prios) (pqueues q) \<rparr>) snapshot rr_empty
         = drop_empty q" by (cases "drop_empty q") (simp add: rr_empty_def)
    with False show ?thesis by (simp add: rr_init_def)
  qed
  have same: "(\<forall>(r, p) \<in> set ps. storable b (snd (scheduler_slot e r))) \<longrightarrow> drop_empty q = q"
  proof
    assume "\<forall>(r, p) \<in> set ps. storable b (snd (scheduler_slot e r))"
    from pushes_full[OF this] show "drop_empty q = q"
      unfolding q_def st_def by (rule drop_empty_full)
  qed
  have pops: "fst (rr_pops b n fs' (drop_empty q)) = fst (rr_pops b n (disk st) q)" for n
  proof -
    have "fst (rr_pops b n fs' (drop_empty q)) = fst (rr_pops b n (disk st) (drop_empty q))"
      by (rule rr_pops_files_indep)
    also have "\<dots> = fst (rr_pops b n (disk st) q)" using inv nf by (rule drop_empty_pops)
    finally show ?thesis .
  qed
  define closed where "closed = fst (snd (rr_close b (disk st) q))"
  have rc: "rr_close b (disk st) q = (snapshot, closed, fs')"
    by (simp add: snapshot_def fs'_def closed_def)
  show ?thesis
    unfolding st_def[symmetric] q_def[symmetric] Let_def rc
    using same pops by (simp add: init del: rr_pops.simps)
qed

text \<open>
  Three requests in the two slots a and b.
\<close>

theorem C4_witness:
  "let st = run ex_env ex_backend (map (\<lambda>(r, p). Push r p) ex_pushes);
       (snapshot, closed, fs') = rr_close ex_backend (disk st) (queue st);
       (err, reopened) = rr_init ex_backend fs' (SnapDict snapshot)
   in err = None \<and> reopened = queue st \<and>
      (\<forall>n. fst (rr_pops ex_backend n fs' reopened) = fst (rr_pops ex_backend n (disk st) (queue st)))"
proof -
  have h1: "durable ex_backend" by (simp add: ex_backend_def)
  have h2: "inj_on (slot_as_path ex_env)
              (set (slots (queue (run ex_env ex_backend (map (\<lambda>(r, p). Push r p) ex_pushes)))))"
    by (simp add: eval_defs ex_defs ex_pushes_def)
  have h3: "\<forall>(r, p) \<in> set ex_pushes. storable ex_backend (snd (scheduler_slot ex_env r))"
    by (simp add: ex_backend_def)
  from C4_roundtrip[OF h1 h2] h3 show ?thesis
    by (simp add: Let_def split: prod.splits del: rr_pops.simps)
qed

text \<open>
  Claim C5, amended. Constructing the queue from a flat list of priorities that is not
  empty raises the \<^verbatim>\<open>ValueError\<close> of a malformed priorities file, before any slot has
  entered the rotation and before any priority queue has been made. An empty flat list
  and \<^verbatim>\<open>None\<close> are taken for no snapshot: the constructor returns the empty queue.
\<close>

theorem C5_malformed:
  "rr_init b fs (SnapList (p # ps)) = (Some MalformedSnapshotKind, rr_empty)
   \<and> rr_init b fs (SnapList []) = (None, rr_empty)
   \<and> rr_init b fs SnapNone = (None, rr_empty)"
  by (simp add: rr_init_def)

text \<open>
  Claim C5 as stated has every value that is not a dictionary rejected. The empty flat
  list is not: \<^verbatim>\<open>if not startprios: return\<close> comes before the type check.
\<close>

theorem C5_counterexample:
  "fst (rr_init ex_backend ex_files (SnapList [])) \<noteq> Some MalformedSnapshotKind"
  by (simp add: rr_init_def)

section \<open>Priority order within one slot\<close>

lemma insort_key_map:
  assumes "\<And>x y. f (g x) \<le> f (g y) \<longleftrightarrow> h x \<le> h y"
  shows "insort_key f (g x) (map g ys) = map g (insort_key h x ys)"
  by (induction ys) (simp_all add: assms)

lemma sort_key_map:
  assumes "\<And>x y. f (g x) \<le> f (g y) \<longleftrightarrow> h x \<le> h y"
  shows "sort_key f (map g xs) = map g (sort_key h xs)"
  by (induction xs) (simp_all add: insort_key_map[where f=f and g=g and h=h, OF assms])

lemma delete_distinct_remove1:
  "distinct (map fst kvs) \<Longrightarrow> map_of kvs k = Some v \<Longrightarrow> AList.delete k kvs = remove1 (k, v) kvs"
proof (induction kvs)
  case Nil then show ?case by simp
next
  case (Cons a kvs)
  show ?case
  proof (cases "fst a = k")
    case True
    with Cons.prems have "a = (k, v)" by (cases a) auto
    moreover have "k \<notin> fst ` set kvs" using Cons.prems(1) True by auto
    ultimately show ?thesis by (simp add: delete_id)
  next
    case False
    with Cons show ?thesis by (cases a) auto
  qed
qed

lemma insort_key_least:
  "\<forall>y \<in> set ys. f x \<le> f y \<Longrightarrow> insort_key f x ys = x # ys"
  by (cases ys) auto

lemma sort_key_min_first:
  assumes "distinct (map f xs)" "x \<in> set xs" "\<forall>y \<in> set xs. f x \<le> f y"
  shows "sort_key f xs = x # sort_key f (remove1 x xs)"
  using assms
proof (induction xs)
  case Nil
  then show ?case by simp
next
  case (Cons a xs)
  show ?case
  proof (cases "x = a")
    case True
    with Cons.prems(3) show ?thesis by (simp add: insort_key_least)
  next
    case False
    with Cons.prems have xin: "x \<in> set xs" and d: "distinct (map f xs)"
      and m: "\<forall>y \<in> set xs. f x \<le> f y" by auto
    from Cons.prems(1) xin have "f a \<noteq> f x" by auto
    moreover from Cons.prems(3) have "f x \<le> f a" by simp
    ultimately have "\<not> f a \<le> f x" by auto
    then show ?thesis using Cons.IH[OF d xin m] False by simp
  qed
qed

lemma singletons_nonempty: "singletons kvs \<Longrightarrow> list_all (\<lambda>(p, q). q \<noteq> []) kvs"
  by (induction kvs) (auto simp: singletons_def)

lemma singletons_delete: "singletons kvs \<Longrightarrow> singletons (AList.delete k kvs)"
  by (simp add: singletons_def list_all_delete)

lemma singletons_len: "singletons kvs \<Longrightarrow> sum_list (map (\<lambda>(p, q). length q) kvs) = length kvs"
  by (induction kvs) (auto simp: singletons_def)

lemma iq_pop_single: "iq_pop b [x] = (Some x, [])"
  by (simp add: iq_pop_def)

lemma single_pop:
  assumes d: "distinct (map fst kvs)" and sg: "singletons kvs" and ne: "kvs \<noteq> []"
    and nf: "no_files b fs"
  shows "\<exists>x. map_of kvs (min_list (map fst kvs)) = Some [x] \<and>
             rr_pop b fs (single s kvs) =
               (Inr (Some x), single s (AList.delete (min_list (map fst kvs)) kvs), fs)"
proof -
  let ?m = "min_list (map fst kvs)"
  let ?kvs' = "AList.delete ?m kvs"
  have mo: "min_or_none (map fst kvs) = Some ?m" using ne by (simp add: min_or_none_def)
  from min_or_none_mem[OF mo] have "?m \<in> fst ` set kvs" by simp
  then obtain v where v: "map_of kvs ?m = Some v"
    using map_of_None_keys[of kvs ?m] by (cases "map_of kvs ?m") auto
  from map_of_SomeD[OF v] sg have "length v = 1" by (auto simp: singletons_def list_all_iff)
  then obtain x where x: "v = [x]" by (cases v) auto
  have all': "list_all (\<lambda>(p, q). q \<noteq> []) ?kvs'"
    using sg by (intro singletons_nonempty singletons_delete)
  let ?pq = "\<lparr> queues = kvs, curprio = min_or_none (map fst kvs) \<rparr>"
  let ?pq' = "\<lparr> queues = ?kvs', curprio = min_or_none (map fst ?kvs') \<rparr>"
  have pp: "pq_pop b fs ?pq = (Inr (Some x), ?pq', fs)"
    using mo v x nf all'
    by (simp add: pq_pop_def iq_pop_single iq_close_no_files filter_nonempty_all Let_def)
  have len: "pq_len ?pq' = length ?kvs'"
    using singletons_len[OF singletons_delete[OF sg, of ?m]] by (simp add: pq_len_def)
  have "rr_pop b fs (single s kvs) = (Inr (Some x), single s ?kvs', fs)"
    using ne pp len by (simp add: single_def rr_pop_def rr_empty_def)
  with v x show ?thesis by blast
qed

lemma single_pops:
  assumes "distinct (map fst kvs)" "singletons kvs" "no_files b fs"
  shows "rr_pops b (length kvs) fs (single s kvs) =
           (map (\<lambda>(k, v). Inr (Some (hd v))) (sort_key fst kvs), rr_empty, fs)"
  using assms
proof (induction "length kvs" arbitrary: kvs)
  case 0
  then show ?case by (simp add: single_def)
next
  case (Suc n)
  then have ne: "kvs \<noteq> []" by auto
  let ?m = "min_list (map fst kvs)"
  from single_pop[OF Suc.prems(1,2) ne Suc.prems(3), of s] obtain x where
    x: "map_of kvs ?m = Some [x]"
    "rr_pop b fs (single s kvs) = (Inr (Some x), single s (AList.delete ?m kvs), fs)"
    by blast
  have rm: "AList.delete ?m kvs = remove1 (?m, [x]) kvs"
    using Suc.prems(1) x(1) by (rule delete_distinct_remove1)
  have xin: "(?m, [x]) \<in> set kvs" using x(1) by (rule map_of_SomeD)
  have l: "n = length (AList.delete ?m kvs)"
    using Suc.hyps(2) xin by (simp add: rm length_remove1)
  have d': "distinct (map fst (AList.delete ?m kvs))" using Suc.prems(1) by (rule distinct_delete)
  have s': "singletons (AList.delete ?m kvs)" using Suc.prems(2) by (rule singletons_delete)
  have least: "\<forall>y \<in> set kvs. fst (?m, [x]) \<le> fst y"
    using ne by (auto simp: min_list_Min)
  have srt: "sort_key fst kvs = (?m, [x]) # sort_key fst (AList.delete ?m kvs)"
    unfolding rm using Suc.prems(1) xin least by (rule sort_key_min_first)
  have "rr_pops b (Suc n) fs (single s kvs) =
      (Inr (Some x) # map (\<lambda>(k, v). Inr (Some (hd v))) (sort_key fst (AList.delete ?m kvs)),
       rr_empty, fs)"
    using x(2) Suc.hyps(1)[OF l d' s' Suc.prems(3)] l by simp
  then show ?case using Suc.hyps(2) srt by simp
qed

lemma rr_pops_state_files_indep:
  "fst (snd (rr_pops b n fs q)) = fst (snd (rr_pops b n fs' q))"
proof (induction n arbitrary: fs fs' q)
  case 0
  show ?case by simp
next
  case (Suc n)
  obtain r1 q1 f1 where 1: "rr_pop b fs q = (r1, q1, f1)" by (cases "rr_pop b fs q")
  obtain r2 q2 f2 where 2: "rr_pop b fs' q = (r2, q2, f2)" by (cases "rr_pop b fs' q")
  from rr_pop_files_indep[of b fs q fs'] 1 2 have e: "r1 = r2" "q1 = q2" by simp_all
  from Suc.IH[of f1 q2 f2] show ?case
    by (auto simp add: 1 2 e split: prod.splits)
qed

lemma drop_empty_pops_state:
  "rr_wf e q \<Longrightarrow> no_files b fs \<Longrightarrow>
   fst (snd (rr_pops b n fs (drop_empty q))) = drop_empty (fst (snd (rr_pops b n fs q)))"
proof (induction n arbitrary: q fs)
  case 0
  show ?case by simp
next
  case (Suc n)
  obtain r q1 f1 where 1: "rr_pop b fs q = (r, q1, f1)" by (cases "rr_pop b fs q")
  obtain r2 q2 f2 where 2: "rr_pop b fs (drop_empty q) = (r2, q2, f2)"
    by (cases "rr_pop b fs (drop_empty q)")
  from drop_empty_pop[OF Suc.prems(1), of b fs] 1 2 have e: "r2 = r" "q2 = drop_empty q1"
    by simp_all
  from rr_pop_wf[OF Suc.prems] 1 have wf: "rr_wf e q1" "no_files b f1" by simp_all
  have "fst (snd (rr_pops b n f2 (drop_empty q1))) = fst (snd (rr_pops b n f1 (drop_empty q1)))"
    by (rule rr_pops_state_files_indep)
  also have "\<dots> = drop_empty (fst (snd (rr_pops b n f1 q1)))" using wf by (rule Suc.IH)
  finally show ?case by (auto simp add: 1 2 e split: prod.splits)
qed

lemma rr_pop_files:
  assumes "rr_wf e q" "no_files b fs"
  shows "snd (snd (rr_pop b fs q)) = fs"
proof (cases "durable b")
  case True
  with rr_pop_wf[OF assms] assms(2) show ?thesis by (simp add: no_files_def)
next
  case False
  then show ?thesis
    by (simp add: rr_pop_def pq_pop_def iq_close_def Let_def
        split: list.splits option.splits prod.splits sum.splits)
qed

lemma rr_pops_files:
  "rr_wf e q \<Longrightarrow> no_files b fs \<Longrightarrow> snd (snd (rr_pops b n fs q)) = fs"
proof (induction n arbitrary: q)
  case 0
  show ?case by simp
next
  case (Suc n)
  obtain r q1 f1 where 1: "rr_pop b fs q = (r, q1, f1)" by (cases "rr_pop b fs q")
  from rr_pop_files[OF Suc.prems] 1 have f: "f1 = fs" by simp
  from rr_pop_wf[OF Suc.prems] 1 have wf: "rr_wf e q1" by simp
  from Suc.IH[OF wf Suc.prems(2)] show ?case by (auto simp add: 1 f split: prod.splits)
qed

lemma drop_empty_eq_empty: "drop_empty q = rr_empty \<Longrightarrow> q = rr_empty"
  by (cases q) (simp add: drop_empty_def rr_empty_def)

lemma pq_push_queues_fresh:
  assumes "no_files b fs" "k \<notin> fst ` set (queues pq)"
  shows "queues (snd (pq_push b fs pq r k)) = queues pq @ [(k, if storable b r then [r] else [])]"
proof -
  from assms(2) have "map_of (queues pq) k = None" by (simp add: map_of_None_keys)
  then show ?thesis
    using assms by (simp add: pq_push_stored pq_push_refused qfactory_no_files update_fresh)
qed

lemma pushes_queues:
  assumes "\<forall>(r, p) \<in> set ps. fst (scheduler_slot e r) = Inr s" "distinct (map snd ps)" "ps \<noteq> []"
  shows "slots (queue (run e b (map (\<lambda>(r, p). Push r p) ps))) = [s] \<and>
     (\<exists>pq. pqueues (queue (run e b (map (\<lambda>(r, p). Push r p) ps))) = [(s, pq)] \<and>
        queues pq = map (\<lambda>(r, p). ((p, slot_as_path e s),
                      if storable b (snd (scheduler_slot e r)) then [snd (scheduler_slot e r)] else []))
                    ps)"
  using assms
proof (induction ps rule: rev_induct)
  case Nil
  then show ?case by simp
next
  case (snoc x ps)
  obtain r p where x: "x = (r, p)" by (cases x)
  let ?st = "run e b (map (\<lambda>(r, p). Push r p) ps)"
  let ?kv = "\<lambda>(r, p). ((p, slot_as_path e s),
                      if storable b (snd (scheduler_slot e r)) then [snd (scheduler_slot e r)] else [])"
  from snoc.prems(1) x obtain r' where ss: "scheduler_slot e r = (Inr s, r')"
    by (cases "scheduler_slot e r") auto
  have nf: "no_files b (disk ?st)" by (simp add: pushes_disk no_files_def)
  have q': "queue (exec_op e b ?st (Push r p)) = snd (rr_push e b (disk ?st) (queue ?st) r p)"
    by (cases "rr_push e b (disk ?st) (queue ?st) r p") (auto split: option.splits)
  have step: "run e b (map (\<lambda>(r, p). Push r p) (ps @ [x])) = exec_op e b ?st (Push r p)"
    by (simp add: run_snoc x)
  show ?case
  proof (cases "ps = []")
    case True
    then have e: "queue ?st = rr_empty" by (simp add: run_def initial_def)
    have "queues (snd (pq_push b (disk ?st) pq_nil r' (p, slot_as_path e s)))
        = [((p, slot_as_path e s), if storable b r' then [r'] else [])]"
      using pq_push_queues_fresh[OF nf, of "(p, slot_as_path e s)" pq_nil r']
      by (simp add: pq_nil_def)
    then show ?thesis
      unfolding step q' rr_push_resolved[OF ss] e using True x ss
      by (simp add: rr_empty_def)
  next
    case False
    with snoc obtain pq where ih: "slots (queue ?st) = [s]" "pqueues (queue ?st) = [(s, pq)]"
      "queues pq = map ?kv ps" by auto
    from snoc.prems(2) x have "p \<notin> snd ` set ps" by auto
    then have k: "(p, slot_as_path e s) \<notin> fst ` set (queues pq)"
      unfolding ih(3) by (force simp: case_prod_beta)
    from pq_push_queues_fresh[OF nf k, of r'] ih x ss show ?thesis
      unfolding step q' rr_push_resolved[OF ss] by simp
  qed
qed

lemma filter_kvs:
  "filter (\<lambda>(k, v). v \<noteq> [])
     (map (\<lambda>(r, p). ((p, slot_as_path e s),
             if storable b (snd (scheduler_slot e r)) then [snd (scheduler_slot e r)] else [])) ps)
   = kvs_of e s (filter (\<lambda>(r, p). storable b (snd (scheduler_slot e r))) ps)"
  by (induction ps) (auto simp: kvs_of_def)

text \<open>
  Claim C1, amended. For every list of pushes whose requests all resolve to one slot and
  whose priorities are pairwise distinct, popping as many times as pushes were stored
  returns the stored requests (as \<^verbatim>\<open>scheduler_slot\<close> left them) in strictly increasing
  order of the priority passed to \<^verbatim>\<open>push\<close>, and leaves the queue empty: the
  numerically lowest priority is served first, as \<^verbatim>\<open>curprio = min(...)\<close> has it. (A
  push that the backend refuses raises and stores nothing; on a backend that stores
  every request, \<open>kept\<close> is the whole list.)
\<close>

theorem C1_priority_order:
  assumes "\<forall>(r, p) \<in> set ps. fst (scheduler_slot e r) = Inr s"
    and "distinct (map snd ps)"
  shows "let kept = filter (\<lambda>(r, p). storable b (snd (scheduler_slot e r))) ps
         in rr_pops b (length kept) (disk (run e b (map (\<lambda>(r, p). Push r p) ps)))
              (queue (run e b (map (\<lambda>(r, p). Push r p) ps)))
            = (map (\<lambda>(r, p). Inr (Some (snd (scheduler_slot e r)))) (sort_key snd kept),
               if kept = [] then queue (run e b (map (\<lambda>(r, p). Push r p) ps)) else rr_empty,
               \<lambda>p. [])"
proof -
  define kept where "kept = filter (\<lambda>(r, p). storable b (snd (scheduler_slot e r))) ps"
  define st where "st = run e b (map (\<lambda>(r, p). Push r p) ps)"
  have dsk: "disk st = (\<lambda>p. [])" unfolding st_def by (rule pushes_disk)
  have "rr_pops b (length kept) (disk st) (queue st)
      = (map (\<lambda>(r, p). Inr (Some (snd (scheduler_slot e r)))) (sort_key snd kept),
         if kept = [] then queue st else rr_empty, \<lambda>p. [])"
  proof (cases "kept = []")
    case True
    then show ?thesis by (simp add: dsk)
  next
    case False
    then have ne: "ps \<noteq> []" by (auto simp: kept_def)
    let ?kvs = "kvs_of e s kept"
    let ?g = "\<lambda>(r, p). ((p, slot_as_path e s), [snd (scheduler_slot e r)])"
    have ri: "run_inv e b st" unfolding st_def using pushes_no_close by (rule run_inv_run)
    then have wf: "rr_wf e (queue st)" and nf: "no_files b (disk st)"
      by (simp_all add: run_inv_def)
    from pushes_queues[OF assms ne, of b] obtain pq where
      q: "slots (queue st) = [s]" "pqueues (queue st) = [(s, pq)]"
      and qs: "queues pq = map (\<lambda>(r, p). ((p, slot_as_path e s),
                      if storable b (snd (scheduler_slot e r)) then [snd (scheduler_slot e r)] else []))
                    ps"
      unfolding st_def by blast
    have fk: "filter (\<lambda>(k, v). v \<noteq> []) (queues pq) = ?kvs"
      unfolding qs kept_def by (rule filter_kvs)
    from wf q have "pq_inv pq" by (simp add: rr_wf_def slot_inv_def)
    then have cp: "curprio pq = min_or_none (map fst ?kvs)"
      by (simp add: pq_inv_def active_def fk)
    have kne: "?kvs \<noteq> []" using False by (simp add: kvs_of_def)
    have "drop_empty_pq pq = \<lparr> queues = ?kvs, curprio = min_or_none (map fst ?kvs) \<rparr>"
      using cp fk by (cases pq) (simp add: drop_empty_pq_def)
    then have de: "drop_empty (queue st) = single s ?kvs"
      using q kne by (cases "queue st") (simp add: drop_empty_def single_def)
    have dps: "distinct (map snd kept)"
      using assms(2) unfolding kept_def by (rule distinct_map_filter)
    have d: "distinct (map fst ?kvs)"
      using dps by (simp add: kvs_of_def distinct_map inj_on_def comp_def case_prod_beta)
    have sg: "singletons ?kvs" by (simp add: singletons_def kvs_of_def list_all_iff case_prod_beta)
    have srt: "sort_key fst ?kvs = map ?g (sort_key snd kept)"
      unfolding kvs_of_def by (rule sort_key_map) (auto simp: case_prod_beta)
    have sp: "rr_pops b (length ?kvs) (disk st) (single s ?kvs) =
        (map (\<lambda>(k, v). Inr (Some (hd v))) (sort_key fst ?kvs), rr_empty, disk st)"
      using d sg nf by (rule single_pops)
    have l: "length ?kvs = length kept" by (simp add: kvs_of_def)
    have "fst (rr_pops b (length kept) (disk st) (queue st))
        = fst (rr_pops b (length kept) (disk st) (single s ?kvs))"
      using drop_empty_pops[OF wf nf, of "length kept"] unfolding de by simp
    also have "\<dots> = map (\<lambda>(k, v). Inr (Some (hd v))) (sort_key fst ?kvs)"
      using sp unfolding l by simp
    also have "\<dots> = map (\<lambda>(r, p). Inr (Some (snd (scheduler_slot e r)))) (sort_key snd kept)"
      unfolding srt by (simp add: comp_def case_prod_beta)
    finally have 1: "fst (rr_pops b (length kept) (disk st) (queue st))
        = map (\<lambda>(r, p). Inr (Some (snd (scheduler_slot e r)))) (sort_key snd kept)" .
    have "drop_empty (fst (snd (rr_pops b (length kept) (disk st) (queue st)))) = rr_empty"
      using drop_empty_pops_state[OF wf nf, of "length kept"] sp unfolding de l by simp
    then have 2: "fst (snd (rr_pops b (length kept) (disk st) (queue st))) = rr_empty"
      by (rule drop_empty_eq_empty)
    have 3: "snd (snd (rr_pops b (length kept) (disk st) (queue st))) = (\<lambda>p. [])"
      using rr_pops_files[OF wf nf, of "length kept"] dsk by simp
    from 1 2 3 False show ?thesis
      by (cases "rr_pops b (length kept) (disk st) (queue st)") simp
  qed
  then show ?thesis unfolding kept_def st_def Let_def .
qed

text \<open>
  The priorities -2, 1, -1, 0, 2 of the scheduler test, pushed as they are: the requests
  come back in the order -2, -1, 0, 1, 2.
\<close>

theorem C1_witness:
  "rr_pops ex_backend 5 (disk (run ex_env ex_backend (map (\<lambda>(r, p). Push r p) ex_priorities)))
     (queue (run ex_env ex_backend (map (\<lambda>(r, p). Push r p) ex_priorities)))
   = ([Inr (Some (ex_stored ''a'')), Inr (Some (ex_stored ''b'')), Inr (Some (ex_stored ''c'')),
       Inr (Some (ex_stored ''d'')), Inr (Some (ex_stored ''e''))], rr_empty, \<lambda>p. [])"
proof -
  have h1: "\<forall>(r, p) \<in> set ex_priorities. fst (scheduler_slot ex_env r) = Inr ''foo.com''"
    by (simp add: ex_defs ex_priorities_def scheduler_slot_def meta_get_def Let_def)
  have h3: "distinct (map snd ex_priorities)" by (simp add: ex_priorities_def)
  have k: "filter (\<lambda>(r, p). storable ex_backend (snd (scheduler_slot ex_env r))) ex_priorities
      = ex_priorities" by (simp add: ex_backend_def)
  have s: "sort_key snd ex_priorities =
      [(ex_request ''a'', -2), (ex_request ''b'', -1), (ex_request ''c'', 0),
       (ex_request ''d'', 1), (ex_request ''e'', 2)]"
    by (simp add: ex_priorities_def)
  have l: "length ex_priorities = 5" "ex_priorities \<noteq> []" by (simp_all add: ex_priorities_def)
  have st: "\<And>x. snd (scheduler_slot ex_env (ex_request x)) = ex_stored x"
    by (simp add: ex_defs ex_stored_def scheduler_slot_def meta_get_def SCHEDULER_SLOT_META_KEY_def
        Let_def)
  from C1_priority_order[OF h1 h3, of ex_backend] show ?thesis
    unfolding Let_def k s l by (simp add: st l(2))
qed

text \<open>
  Claim C1 as stated has the numerically highest priority first. Of two requests pushed
  into one slot with the priorities 1 and 2, the first pop returns the one pushed with 1.
\<close>

theorem C1_counterexample:
  "fst (rr_pops ex_backend 2
         (disk (run ex_env ex_backend [Push (ex_request ''low'') 1, Push (ex_request ''high'') 2]))
         (queue (run ex_env ex_backend [Push (ex_request ''low'') 1, Push (ex_request ''high'') 2])))
   = [Inr (Some (ex_stored ''low'')), Inr (Some (ex_stored ''high''))]
   \<and>
   fst (rr_pops ex_backend 2
         (disk (run ex_env ex_backend [Push (ex_request ''low'') 1, Push (ex_request ''high'') 2]))
         (queue (run ex_env ex_backend [Push (ex_request ''low'') 1, Push (ex_request ''high'') 2])))
   \<noteq> [Inr (Some (ex_stored ''high'')), Inr (Some (ex_stored ''low''))]"
  by (simp add: eval_defs ex_defs ex_stored_def eval_nat_numeral)

section \<open>Unique paths\<close>

lemma uuid_suffixes_Suc: "uuid_suffixes u n (Suc k) = uuid_suffixes u n k @ ''-'' @ u (n + k)"
  by (simp add: uuid_suffixes_def)

lemma unique_path_loop_result:
  "\<exists>j. unique_path_loop u ex (base @ uuid_suffixes u n k) (n + k)
         = (base @ uuid_suffixes u n (k + j), n + k + j) \<and>
       base @ uuid_suffixes u n (k + j) \<notin> set ex"
proof (induction u ex "base @ uuid_suffixes u n k" "n + k" arbitrary: k rule: unique_path_loop.induct)
  case (1 u ex)
  show ?case
  proof (cases "base @ uuid_suffixes u n k \<in> set ex")
    case True
    have e: "(base @ uuid_suffixes u n k) @ ''-'' @ u (n + k) = base @ uuid_suffixes u n (Suc k)"
      by (simp add: uuid_suffixes_Suc)
    from "1"[OF True, of "Suc k"] e obtain j where
      j: "unique_path_loop u ex (base @ uuid_suffixes u n (Suc k)) (n + Suc k)
           = (base @ uuid_suffixes u n (Suc k + j), n + Suc k + j)"
         "base @ uuid_suffixes u n (Suc k + j) \<notin> set ex"
      by auto
    have "unique_path_loop u ex (base @ uuid_suffixes u n k) (n + k)
        = unique_path_loop u ex (base @ uuid_suffixes u n (Suc k)) (n + Suc k)"
      using True e by (subst unique_path_loop.simps) simp
    with j show ?thesis by (intro exI[of _ "Suc j"]) simp
  next
    case False
    then show ?thesis
      by (intro exI[of _ 0]) (simp add: unique_path_loop.simps[of u ex "base @ uuid_suffixes u n k"])
  qed
qed

lemma unique_path_result:
  "\<exists>k. 0 < k \<and> unique_path u ex base n = (base @ uuid_suffixes u n k, n + k) \<and>
       base @ uuid_suffixes u n k \<notin> set ex"
proof -
  from unique_path_loop_result[of u ex base n 1] obtain j where
    "unique_path_loop u ex (base @ uuid_suffixes u n 1) (n + 1) = (base @ uuid_suffixes u n (1 + j), n + 1 + j)"
    "base @ uuid_suffixes u n (1 + j) \<notin> set ex" by blast
  then show ?thesis
    by (intro exI[of _ "Suc j"]) (simp add: unique_path_def uuid_suffixes_def)
qed

lemma uuid_suffixes_nonempty: "0 < k \<Longrightarrow> uuid_suffixes u n k \<noteq> []"
  by (cases k) (simp_all add: uuid_suffixes_def upt_rec[of n])

text \<open>
  Claim C9. Whatever the base path, the existing paths and the values drawn, the path the
  wrapped constructor is called with is the base path followed by one or more suffixes
  (a dash and a drawn value each), so the base path is a strict prefix of it; it is not
  among the existing paths; and it differs from the path of every queue created later,
  from any base path and any draws, while the first one's path exists.
\<close>

theorem C9_unique_path:
  "(\<exists>k. 0 < k \<and> fst (unique_path u ex base n) = base @ uuid_suffixes u n k)
   \<and> strict_prefix base (fst (unique_path u ex base n))
   \<and> fst (unique_path u ex base n) \<notin> set ex
   \<and> fst (unique_files_queue queue_class u ex base n) = queue_class (fst (unique_path u ex base n))
   \<and> (\<forall>u' ex' base' n'. fst (unique_path u ex base n) \<in> set ex' \<longrightarrow>
        fst (unique_path u' ex' base' n') \<noteq> fst (unique_path u ex base n))"
proof -
  from unique_path_result[of u ex base n] obtain k where
    k: "0 < k" "unique_path u ex base n = (base @ uuid_suffixes u n k, n + k)"
       "base @ uuid_suffixes u n k \<notin> set ex" by blast
  have 1: "\<exists>k. 0 < k \<and> fst (unique_path u ex base n) = base @ uuid_suffixes u n k"
    using k by auto
  have 2: "strict_prefix base (fst (unique_path u ex base n))"
    using k uuid_suffixes_nonempty[OF k(1), of u n] by (simp add: strict_prefix_def)
  have 3: "fst (unique_path u ex base n) \<notin> set ex" using k by simp
  have 4: "fst (unique_files_queue queue_class u ex base n) = queue_class (fst (unique_path u ex base n))"
    by (simp add: unique_files_queue_def split: prod.splits)
  have 5: "\<forall>u' ex' base' n'. fst (unique_path u ex base n) \<in> set ex' \<longrightarrow>
        fst (unique_path u' ex' base' n') \<noteq> fst (unique_path u ex base n)"
  proof (intro allI impI)
    fix u' :: "nat \<Rightarrow> string" and ex' base' n'
    assume a: "fst (unique_path u ex base n) \<in> set ex'"
    from unique_path_result[of u' ex' base' n'] have "fst (unique_path u' ex' base' n') \<notin> set ex'"
      by auto
    with a show "fst (unique_path u' ex' base' n') \<noteq> fst (unique_path u ex base n)" by auto
  qed
  from 1 2 3 4 5 show ?thesis by blast
qed

text \<open>
  The base path q with q-0f taken: the first queue gets q-0f-a1; a second queue created
  from the same base path by the same draws, once q-0f-a1 exists, gets another path.
\<close>

theorem C9_witness:
  "fst (unique_path ex_uuid4_hex [''q-0f''] ''q'' 0) = ''q-0f-a1'' \<and>
   fst (unique_path ex_uuid4_hex [''q-0f-a1'', ''q-0f''] ''q'' 0) \<noteq> ''q-0f-a1''"
proof -
  have e: "fst (unique_path ex_uuid4_hex [''q-0f''] ''q'' 0) = ''q-0f-a1''"
    by (simp add: unique_path_def unique_path_loop.simps ex_uuid4_hex_def)
  have m: "fst (unique_path ex_uuid4_hex [''q-0f''] ''q'' 0) \<in> set [''q-0f-a1'', ''q-0f'']"
    unfolding e by simp
  from C9_unique_path[of ex_uuid4_hex "[''q-0f'']" "''q''" 0] m e show ?thesis by metis
qed

section \<open>The downloader-aware queue\<close>

lemma least_active_None: "least_active cnt xs = None \<longleftrightarrow> xs = []"
  by (induction xs) (auto split: option.splits)

lemma least_active_props:
  assumes "least_active cnt xs = Some s"
  shows "\<exists>ys zs. xs = ys @ s # zs \<and> (\<forall>t \<in> set ys. cnt s < cnt t) \<and> (\<forall>t \<in> set zs. cnt s \<le> cnt t)"
  using assms
proof (induction xs arbitrary: s)
  case Nil
  then show ?case by simp
next
  case (Cons a xs)
  show ?case
  proof (cases "least_active cnt xs")
    case None
    then have "xs = []" by (simp add: least_active_None)
    with Cons.prems None show ?thesis by (intro exI[of _ "[]"]) simp
  next
    case (Some t)
    from Cons.IH[OF Some] obtain ys zs where
      t: "xs = ys @ t # zs" "\<forall>u \<in> set ys. cnt t < cnt u" "\<forall>u \<in> set zs. cnt t \<le> cnt u"
      by blast
    show ?thesis
    proof (cases "cnt a \<le> cnt t")
      case True
      with Cons.prems Some have "s = a" by simp
      moreover have "\<forall>u \<in> set xs. cnt a \<le> cnt u" using t True by fastforce
      ultimately show ?thesis by (intro exI[of _ "[]"] exI[of _ xs]) simp
    next
      case False
      with Cons.prems Some have "s = t" by simp
      with t False show ?thesis
        by (intro exI[of _ "a # ys"] exI[of _ zs]) auto
    qed
  qed
qed

lemma rr_inv_rotate:
  assumes "rr_inv e q" "s \<in> set (slots q)"
  shows "rr_inv e (q\<lparr> slots := s # remove1 s (slots q) \<rparr>)"
proof -
  from assms have d: "distinct (slots q)" by (simp add: rr_inv_def rr_wf_def)
  have "set (s # remove1 s (slots q)) = set (slots q)" using assms(2) d by auto
  moreover have "distinct (s # remove1 s (slots q))" using d by simp
  ultimately show ?thesis using assms(1) by (simp add: rr_inv_def rr_wf_def)
qed

text \<open>
  Claim C10, for the queue modelled from the specification. On a queue that satisfies the
  round-robin invariant and has a slot in its rotation, \<^verbatim>\<open>pop\<close> returns a request of a
  slot \<open>s\<close> of the rotation such that every slot before \<open>s\<close> in the rotation has more
  requests in flight than \<open>s\<close> and no slot after \<open>s\<close> has fewer; the counts are left as
  they are. Push, close and reopen are those of the round-robin queue.
\<close>

theorem C10_downloader_aware:
  assumes "rr_inv e (rr dq)" "no_files b fs" "slots (rr dq) \<noteq> []"
  shows "(\<exists>s x dq' ys zs.
           da_pop b fs dq = (Inr (Some x), dq', fs) \<and> scheduler_slot e x = (Inr s, x) \<and>
           slots (rr dq) = ys @ s # zs \<and>
           (\<forall>t \<in> set ys. in_flight_of dq s < in_flight_of dq t) \<and>
           (\<forall>t \<in> set zs. in_flight_of dq s \<le> in_flight_of dq t) \<and>
           in_flight dq' = in_flight dq)
       \<and> da_push e b fs dq r p =
           (fst (rr_push e b fs (rr dq) r p), dq\<lparr> rr := snd (rr_push e b fs (rr dq) r p) \<rparr>)
       \<and> fst (da_close b fs dq) = fst (rr_close b fs (rr dq))
       \<and> rr (fst (snd (da_close b fs dq))) = fst (snd (rr_close b fs (rr dq)))
       \<and> snd (snd (da_close b fs dq)) = snd (snd (rr_close b fs (rr dq)))
       \<and> fst (da_init b fs sn) = fst (rr_init b fs sn)
       \<and> rr (snd (da_init b fs sn)) = snd (rr_init b fs sn)"
proof -
  from assms(3) obtain s where s: "least_active (in_flight_of dq) (slots (rr dq)) = Some s"
    using least_active_None[of "in_flight_of dq" "slots (rr dq)"]
    by (cases "least_active (in_flight_of dq) (slots (rr dq))") auto
  from least_active_props[OF s] obtain ys zs where
    p: "slots (rr dq) = ys @ s # zs" "\<forall>t \<in> set ys. in_flight_of dq s < in_flight_of dq t"
       "\<forall>t \<in> set zs. in_flight_of dq s \<le> in_flight_of dq t"
    by blast
  then have sin: "s \<in> set (slots (rr dq))" by simp
  let ?q = "(rr dq)\<lparr> slots := s # remove1 s (slots (rr dq)) \<rparr>"
  have inv: "rr_inv e ?q" using assms(1) sin by (rule rr_inv_rotate)
  have sl: "slots ?q = s # remove1 s (slots (rr dq))" by simp
  from rr_inv_pop[OF inv assms(2) sl] obtain x q' where
    x: "rr_pop b fs ?q = (Inr (Some x), q', fs)" "scheduler_slot e x = (Inr s, x)"
    by blast
  have "da_pop b fs dq = (Inr (Some x), dq\<lparr> rr := q' \<rparr>, fs)"
    using s x(1) by (simp add: da_pop_def)
  with x(2) p have 1: "\<exists>s x dq' ys zs.
           da_pop b fs dq = (Inr (Some x), dq', fs) \<and> scheduler_slot e x = (Inr s, x) \<and>
           slots (rr dq) = ys @ s # zs \<and>
           (\<forall>t \<in> set ys. in_flight_of dq s < in_flight_of dq t) \<and>
           (\<forall>t \<in> set zs. in_flight_of dq s \<le> in_flight_of dq t) \<and>
           in_flight dq' = in_flight dq"
    by (intro exI[of _ s] exI[of _ x] exI[of _ "dq\<lparr> rr := q' \<rparr>"] exI[of _ ys] exI[of _ zs]) simp
  have 2: "da_push e b fs dq r p =
           (fst (rr_push e b fs (rr dq) r p), dq\<lparr> rr := snd (rr_push e b fs (rr dq) r p) \<rparr>)"
    by (simp add: da_push_def split: prod.splits)
  have 3: "fst (da_close b fs dq) = fst (rr_close b fs (rr dq))"
    "rr (fst (snd (da_close b fs dq))) = fst (snd (rr_close b fs (rr dq)))"
    "snd (snd (da_close b fs dq)) = snd (snd (rr_close b fs (rr dq)))"
    by (simp_all add: da_close_def split: prod.splits)
  have 4: "fst (da_init b fs sn) = fst (rr_init b fs sn)"
    "rr (snd (da_init b fs sn)) = snd (rr_init b fs sn)"
    by (simp_all add: da_init_def split: prod.splits)
  from 1 2 3 4 show ?thesis by blast
qed

text \<open>
  The rotation a, b, d, c of the scheduler test with 2, 0, 1 and 0 requests in flight:
  the request popped is one of slot b, the first of the two slots with none in flight.
\<close>

theorem C10_witness:
  "\<exists>x dq'. da_pop ex_backend ex_files ex_daqueue = (Inr (Some x), dq', ex_files) \<and>
      scheduler_slot ex_env x = (Inr ''b'', x)"
proof -
  have ri: "run_inv ex_env ex_backend (run ex_env ex_backend ex_slots)"
    using ex_slots_no_close by (rule run_inv_run)
  moreover have "\<forall>(s, pq) \<in> set (pqueues (queue (run ex_env ex_backend ex_slots))). 0 < pq_len pq"
    by (simp add: eval_defs ex_defs pq_len_def)
  ultimately have h1: "rr_inv ex_env (rr ex_daqueue)"
    by (simp add: run_inv_def rr_inv_def ex_daqueue_def)
  have h2: "no_files ex_backend ex_files" by (simp add: no_files_def ex_files_def)
  have s: "slots (rr ex_daqueue) = [''a'', ''b'', ''d'', ''c'']"
    by (simp add: ex_daqueue_def eval_defs ex_defs)
  then have h3: "slots (rr ex_daqueue) \<noteq> []" by simp
  from C10_downloader_aware[OF h1 h2 h3] obtain s' x dq' ys zs where
    r: "da_pop ex_backend ex_files ex_daqueue = (Inr (Some x), dq', ex_files)"
       "scheduler_slot ex_env x = (Inr s', x)" "slots (rr ex_daqueue) = ys @ s' # zs"
       "\<forall>t \<in> set ys. in_flight_of ex_daqueue s' < in_flight_of ex_daqueue t"
       "\<forall>t \<in> set zs. in_flight_of ex_daqueue s' \<le> in_flight_of ex_daqueue t"
    by blast
  have c: "in_flight_of ex_daqueue ''a'' = 2" "in_flight_of ex_daqueue ''b'' = 0"
    "in_flight_of ex_daqueue ''c'' = 0" "in_flight_of ex_daqueue ''d'' = 1"
    by (simp_all add: in_flight_of_def ex_daqueue_def)
  have "s' = ''b''"
    using r(3,4,5) c unfolding s
    by (auto simp: Cons_eq_append_conv)
  with r show ?thesis by blast
qed

end
